theory Spec2Isabelle
  imports Main "HOL-Library.Word" "HOL-Library.Multiset"
begin

section \<open>The count-min sketch of primer/count\_min\_sketch\<close>

text \<open>
  A shallow embedding of \<^verbatim>\<open>bustub::CountMinSketch<KeyType>\<close>
  (\<^verbatim>\<open>count_min_sketch.h\<close> and \<^verbatim>\<open>count_min_sketch.cpp\<close>).

  \<^item> Objects live in a store from addresses to sketches, because the row hashers are
    lambdas that capture \<^verbatim>\<open>this\<close> and read \<^verbatim>\<open>width_\<close> through it when
    they are called, and because \<^verbatim>\<open>Merge\<close> and the move operations take a second
    object that may or may not be the same one.
  \<^item> \<^verbatim>\<open>uint32_t\<close> is \<open>32 word\<close>, \<^verbatim>\<open>uint16_t\<close> is \<open>16 word\<close> and
    \<^verbatim>\<open>size_t\<close> is \<open>64 word\<close> (an LP64 target); arithmetic on them wraps.
  \<^item> Undefined behaviour (\<^verbatim>\<open>operator[]\<close> past the end of a vector, \<^verbatim>\<open>%\<close> by
    zero, a member call on an address that holds no object) is a value of type \<open>ub\<close>.
    A thrown exception is a value that still carries the store, since the program goes on.
  \<^item> \<^verbatim>\<open>std::hash<KeyType>\<close>, \<^verbatim>\<open>HashUtil::CombineHashes\<close> (from
    \<^verbatim>\<open>common/util/hash_util.h\<close>) and \<^verbatim>\<open>std::sort\<close> are library code: they are
    parameters, collected in the record \<open>env\<close>.
  \<^item> The data members keep their names, with a prime for the trailing underscore
    (\<open>width'\<close> is \<^verbatim>\<open>width_\<close>), which is not admitted at the end of a name.
  \<^item> The mutex is not modelled: the embedding is sequential. Allocation failure
    (\<^verbatim>\<open>std::bad_alloc\<close>) is not modelled either.
\<close>

type_synonym uint16_t = "16 word"
type_synonym uint32_t = "32 word"
type_synonym size_t = "64 word"
type_synonym addr = nat

datatype ub = out_of_bounds | division_by_zero | dangling_reference

datatype exception = invalid_argument string

text \<open>The closure \<^verbatim>\<open>[seed, this](const KeyType &item) -> size_t\<close>: its two captures.\<close>

datatype hasher = Lambda (captured_seed: size_t) (captured_this: addr)

record sketch =
  width' :: uint32_t
  depth' :: uint32_t
  hash_functions' :: "hasher list"
  count_matrix' :: "uint32_t list list"

type_synonym heap = "addr \<rightharpoonup> sketch"

record 'k env =
  std_hash :: "'k \<Rightarrow> size_t"
  CombineHashes :: "size_t \<Rightarrow> size_t \<Rightarrow> size_t"
  std_sort :: "('k \<times> uint32_t \<Rightarrow> 'k \<times> uint32_t \<Rightarrow> bool)
                 \<Rightarrow> ('k \<times> uint32_t) list \<Rightarrow> ('k \<times> uint32_t) list"

text \<open>The result of a member function that may throw.\<close>

datatype outcome = Returned heap | Thrown exception heap | Undefined ub

definition SEED_BASE :: size_t where
  "SEED_BASE = 15445"

definition UINT32_MAX :: uint32_t where
  "UINT32_MAX = 4294967295"

subsection \<open>Vectors\<close>

text \<open>\<^verbatim>\<open>v[i]\<close> on a \<^verbatim>\<open>std::vector\<close>: undefined behaviour when \<open>i \<ge> v.size()\<close>.\<close>

definition vec_at :: "'a list \<Rightarrow> nat \<Rightarrow> ub + 'a" where
  "vec_at v i = (if i < length v then Inr (v ! i) else Inl out_of_bounds)"

text \<open>\<^verbatim>\<open>v.resize(n, x)\<close>: truncate, or pad with copies of \<open>x\<close>.\<close>

definition resize :: "'a list \<Rightarrow> nat \<Rightarrow> 'a \<Rightarrow> 'a list" where
  "resize v n x = take n v @ replicate (n - length v) x"

text \<open>
  \<^verbatim>\<open>for (i = i0; i < n; i++) body\<close> for a bound \<open>n\<close> that the body does not change
  (every loop bound of the source is \<^verbatim>\<open>depth_\<close> or \<^verbatim>\<open>width_\<close>, which no loop body
  assigns). The counter is a \<open>nat\<close>: it stays below the bound, which fits its C++ type, so
  \<^verbatim>\<open>i++\<close> never wraps. Undefined behaviour in the body ends the loop.
\<close>

function for_loop :: "nat \<Rightarrow> nat \<Rightarrow> (nat \<Rightarrow> 's \<Rightarrow> ub + 's) \<Rightarrow> 's \<Rightarrow> ub + 's" where
  "for_loop i n body s =
     (if i < n then
        (case body i s of Inl u \<Rightarrow> Inl u | Inr s' \<Rightarrow> for_loop (Suc i) n body s')
      else Inr s)"
  by pat_completeness auto
termination
  by (relation "measure (\<lambda>(i, n, body, s). n - i)") auto

declare for_loop.simps [simp del]

subsection \<open>Row hashers\<close>

text \<open>\<^verbatim>\<open>HashFunction(seed)\<close> returns the lambda capturing \<open>seed\<close> and \<^verbatim>\<open>this\<close>.\<close>

definition HashFunction :: "addr \<Rightarrow> size_t \<Rightarrow> hasher" where
  "HashFunction this seed = Lambda seed this"

text \<open>
  Calling the lambda: \<^verbatim>\<open>CombineHashes(h1, h2) % width_\<close>, where \<^verbatim>\<open>width_\<close> is
  \<^verbatim>\<open>this->width_\<close> of the captured object at the time of the call.
\<close>

definition call :: "'k env \<Rightarrow> heap \<Rightarrow> hasher \<Rightarrow> 'k \<Rightarrow> ub + size_t" where
  "call E H f item =
     (case H (captured_this f) of
        None \<Rightarrow> Inl dangling_reference
      | Some s \<Rightarrow>
          (let h1 = std_hash E item;
               h2 = CombineHashes E (captured_seed f) SEED_BASE
           in if width' s = 0 then Inl division_by_zero
              else Inr (CombineHashes E h1 h2 mod ucast (width' s))))"

text \<open>
  \<^verbatim>\<open>for (size_t i = 0; i < depth_; i++) hash_functions_.push_back(this->HashFunction(i));\<close>
  as it stands in both constructors and in the move assignment.
\<close>

function push_hash_functions :: "addr \<Rightarrow> nat \<Rightarrow> nat \<Rightarrow> hasher list \<Rightarrow> hasher list" where
  "push_hash_functions this i depth hs =
     (if i < depth then push_hash_functions this (Suc i) depth (hs @ [HashFunction this (of_nat i)])
      else hs)"
  by pat_completeness auto
termination
  by (relation "measure (\<lambda>(this, i, depth, hs). depth - i)") auto

declare push_hash_functions.simps [simp del]

subsection \<open>Construction and ownership transfer\<close>

definition CountMinSketch :: "heap \<Rightarrow> addr \<Rightarrow> uint32_t \<Rightarrow> uint32_t \<Rightarrow> outcome" where
  "CountMinSketch H this width depth =
     (if width = 0 \<or> depth = 0 then
        Thrown (invalid_argument ''Width and depth must be greater than 0.'') H
      else
        (let s = \<lparr>width' = width, depth' = depth, hash_functions' = [],
                  count_matrix' = replicate (unat depth) (replicate (unat width) 0)\<rparr>;
             s = s\<lparr>hash_functions' :=
                     push_hash_functions this 0 (unat (depth' s)) (hash_functions' s)\<rparr>
         in Returned (H(this \<mapsto> s))))"

text \<open>
  The move constructor builds a new object at \<open>this\<close> from the live object at \<open>other\<close>.
  \<^verbatim>\<open>count_matrix_ = std::move(other.count_matrix_)\<close> leaves the source vector empty
  (what the standard library implementations do for the default allocator).
  Constructing an object from itself would read it before it exists: that is undefined.
\<close>

definition move_ctor :: "heap \<Rightarrow> addr \<Rightarrow> addr \<Rightarrow> ub + heap" where
  "move_ctor H this other =
     (case H other of
        None \<Rightarrow> Inl dangling_reference
      | Some src \<Rightarrow>
          if this = other then Inl dangling_reference
          else
            (let t = \<lparr>width' = width' src, depth' = depth' src, hash_functions' = [],
                      count_matrix' = []\<rparr>;
                 t = t\<lparr>count_matrix' := count_matrix' src\<rparr>;
                 src = src\<lparr>count_matrix' := []\<rparr>;
                 t = t\<lparr>count_matrix' :=
                         map (\<lambda>row. resize row (unat (width' t)) 0) (count_matrix' t)\<rparr>;
                 t = t\<lparr>hash_functions' :=
                         push_hash_functions this 0 (unat (depth' t)) (hash_functions' t)\<rparr>;
                 src = src\<lparr>width' := 0\<rparr>;
                 src = src\<lparr>depth' := 0\<rparr>
             in Inr (H(this \<mapsto> t, other \<mapsto> src))))"

text \<open>The move assignment \<^verbatim>\<open>operator=(CountMinSketch &&other)\<close>.\<close>

definition move_assign :: "heap \<Rightarrow> addr \<Rightarrow> addr \<Rightarrow> ub + heap" where
  "move_assign H this other =
     (case H this of
        None \<Rightarrow> Inl dangling_reference
      | Some t \<Rightarrow>
          (case H other of
             None \<Rightarrow> Inl dangling_reference
           | Some src \<Rightarrow>
               if this = other then Inr H
               else
                 (let t = t\<lparr>width' := width' src\<rparr>;
                      t = t\<lparr>depth' := depth' src\<rparr>;
                      t = t\<lparr>count_matrix' := count_matrix' src\<rparr>;
                      src = src\<lparr>count_matrix' := []\<rparr>;
                      t = t\<lparr>count_matrix' :=
                              map (\<lambda>row. resize row (unat (width' t)) 0) (count_matrix' t)\<rparr>;
                      t = t\<lparr>hash_functions' := []\<rparr>;
                      t = t\<lparr>hash_functions' :=
                              push_hash_functions this 0 (unat (depth' t)) (hash_functions' t)\<rparr>;
                      src = src\<lparr>width' := 0\<rparr>;
                      src = src\<lparr>depth' := 0\<rparr>
                  in Inr (H(this \<mapsto> t, other \<mapsto> src)))))"

subsection \<open>Insert, Merge, Count, Clear, TopK\<close>

text \<open>
  One round of the loop of \<^verbatim>\<open>Insert\<close>:
  \<^verbatim>\<open>uint32_t index = hash_functions_[i](item); (count_matrix_)[i][index]++;\<close>
  The \<^verbatim>\<open>size_t\<close> result of the hasher is narrowed to \<^verbatim>\<open>uint32_t\<close>.
\<close>

definition Insert_body :: "'k env \<Rightarrow> addr \<Rightarrow> 'k \<Rightarrow> nat \<Rightarrow> heap \<Rightarrow> ub + heap" where
  "Insert_body E this item i H =
     (case H this of
        None \<Rightarrow> Inl dangling_reference
      | Some s \<Rightarrow>
          (case vec_at (hash_functions' s) i of
             Inl u \<Rightarrow> Inl u
           | Inr f \<Rightarrow>
               (case call E H f item of
                  Inl u \<Rightarrow> Inl u
                | Inr h \<Rightarrow>
                    (let index = (ucast h :: uint32_t) in
                     case vec_at (count_matrix' s) i of
                       Inl u \<Rightarrow> Inl u
                     | Inr row \<Rightarrow>
                         (case vec_at row (unat index) of
                            Inl u \<Rightarrow> Inl u
                          | Inr c \<Rightarrow>
                              Inr (H(this \<mapsto> s\<lparr>count_matrix' :=
                                     (count_matrix' s)[i := row[unat index := c + 1]]\<rparr>)))))))"

definition Insert :: "'k env \<Rightarrow> heap \<Rightarrow> addr \<Rightarrow> 'k \<Rightarrow> ub + heap" where
  "Insert E H this item =
     (case H this of
        None \<Rightarrow> Inl dangling_reference
      | Some s \<Rightarrow> for_loop 0 (unat (depth' s)) (Insert_body E this item) H)"

text \<open>
  The innermost statement of \<^verbatim>\<open>Merge\<close>:
  \<^verbatim>\<open>(count_matrix_)[i][j] += (other.count_matrix_)[i][j];\<close>
  Both objects are read from the current store: \<open>other\<close> may be \<open>this\<close>.
\<close>

definition Merge_body :: "addr \<Rightarrow> addr \<Rightarrow> nat \<Rightarrow> nat \<Rightarrow> heap \<Rightarrow> ub + heap" where
  "Merge_body this other i j H =
     (case H this of
        None \<Rightarrow> Inl dangling_reference
      | Some s \<Rightarrow>
          (case H other of
             None \<Rightarrow> Inl dangling_reference
           | Some src \<Rightarrow>
               (case vec_at (count_matrix' src) i of
                  Inl u \<Rightarrow> Inl u
                | Inr orow \<Rightarrow>
                    (case vec_at orow j of
                       Inl u \<Rightarrow> Inl u
                     | Inr oc \<Rightarrow>
                         (case vec_at (count_matrix' s) i of
                            Inl u \<Rightarrow> Inl u
                          | Inr row \<Rightarrow>
                              (case vec_at row j of
                                 Inl u \<Rightarrow> Inl u
                               | Inr c \<Rightarrow>
                                   Inr (H(this \<mapsto> s\<lparr>count_matrix' :=
                                          (count_matrix' s)[i := row[j := c + oc]]\<rparr>))))))))"

definition Merge :: "heap \<Rightarrow> addr \<Rightarrow> addr \<Rightarrow> outcome" where
  "Merge H this other =
     (case H this of
        None \<Rightarrow> Undefined dangling_reference
      | Some s \<Rightarrow>
          (case H other of
             None \<Rightarrow> Undefined dangling_reference
           | Some src \<Rightarrow>
               if width' s \<noteq> width' src \<or> depth' s \<noteq> depth' src then
                 Thrown (invalid_argument ''Incompatible CountMinSketch dimensions for merge.'') H
               else
                 (case for_loop 0 (unat (depth' s))
                         (\<lambda>i. for_loop 0 (unat (width' s)) (Merge_body this other i)) H of
                    Inl u \<Rightarrow> Undefined u
                  | Inr H' \<Rightarrow> Returned H')))"

text \<open>
  The loop of \<^verbatim>\<open>Count\<close>, with its early \<^verbatim>\<open>return\<close> and its \<^verbatim>\<open>continue\<close>.
  \<^verbatim>\<open>Count\<close> is \<^verbatim>\<open>const\<close>: the object \<open>s\<close> is read once.
\<close>

function Count_loop ::
  "'k env \<Rightarrow> heap \<Rightarrow> sketch \<Rightarrow> 'k \<Rightarrow> nat \<Rightarrow> uint32_t \<Rightarrow> ub + uint32_t" where
  "Count_loop E H s item i min_count =
     (if i < unat (depth' s) then
        (case vec_at (count_matrix' s) i of
           Inl u \<Rightarrow> Inl u
         | Inr row \<Rightarrow>
             if length row \<noteq> unat (width' s) then
               (if row = [] then Inr 0 else vec_at row 0)
             else
               (case vec_at (hash_functions' s) i of
                  Inl u \<Rightarrow> Inl u
                | Inr f \<Rightarrow>
                    (case call E H f item of
                       Inl u \<Rightarrow> Inl u
                     | Inr hash_index \<Rightarrow>
                         if unat hash_index \<ge> unat (width' s) then
                           Count_loop E H s item (Suc i) min_count
                         else
                           (case vec_at row (unat hash_index) of
                              Inl u \<Rightarrow> Inl u
                            | Inr c \<Rightarrow> Count_loop E H s item (Suc i) (min min_count c)))))
      else Inr (if min_count = UINT32_MAX then 0 else min_count))"
  by pat_completeness auto
termination
  by (relation "measure (\<lambda>(E, H, s, item, i, min_count). unat (depth' s) - i)") auto

declare Count_loop.simps [simp del]

definition Count :: "'k env \<Rightarrow> heap \<Rightarrow> addr \<Rightarrow> 'k \<Rightarrow> ub + uint32_t" where
  "Count E H this item =
     (case H this of
        None \<Rightarrow> Inl dangling_reference
      | Some s \<Rightarrow>
          if count_matrix' s = [] \<or> length (count_matrix' s) \<noteq> unat (depth' s)
             \<or> length (hash_functions' s) \<noteq> unat (depth' s)
          then Inr 0
          else Count_loop E H s item 0 UINT32_MAX)"

text \<open>The innermost statement of \<^verbatim>\<open>Clear\<close>: \<^verbatim>\<open>count_matrix_[i][j] = 0;\<close>\<close>

definition Clear_body :: "addr \<Rightarrow> nat \<Rightarrow> nat \<Rightarrow> heap \<Rightarrow> ub + heap" where
  "Clear_body this i j H =
     (case H this of
        None \<Rightarrow> Inl dangling_reference
      | Some s \<Rightarrow>
          (case vec_at (count_matrix' s) i of
             Inl u \<Rightarrow> Inl u
           | Inr row \<Rightarrow>
               (case vec_at row j of
                  Inl u \<Rightarrow> Inl u
                | Inr c \<Rightarrow>
                    Inr (H(this \<mapsto> s\<lparr>count_matrix' :=
                           (count_matrix' s)[i := row[j := 0]]\<rparr>)))))"

definition Clear :: "heap \<Rightarrow> addr \<Rightarrow> ub + heap" where
  "Clear H this =
     (case H this of
        None \<Rightarrow> Inl dangling_reference
      | Some s \<Rightarrow>
          for_loop 0 (unat (depth' s))
            (\<lambda>i. for_loop 0 (unat (width' s)) (Clear_body this i)) H)"

text \<open>
  \<^verbatim>\<open>for (const auto &candidate : candidates) top_k.emplace_back(candidate, Count(candidate));\<close>
\<close>

fun TopK_collect ::
  "'k env \<Rightarrow> heap \<Rightarrow> addr \<Rightarrow> 'k list \<Rightarrow> ('k \<times> uint32_t) list \<Rightarrow> ub + ('k \<times> uint32_t) list" where
  "TopK_collect E H this [] top_k = Inr top_k"
| "TopK_collect E H this (candidate # candidates) top_k =
     (case Count E H this candidate of
        Inl u \<Rightarrow> Inl u
      | Inr count' \<Rightarrow> TopK_collect E H this candidates (top_k @ [(candidate, count')]))"

text \<open>
  \<^verbatim>\<open>top_k.resize(std::min(static_cast<size_t>(k), top_k.size()))\<close> never grows the
  vector, so it is a truncation.
\<close>

definition TopK ::
  "'k env \<Rightarrow> heap \<Rightarrow> addr \<Rightarrow> uint16_t \<Rightarrow> 'k list \<Rightarrow> ub + ('k \<times> uint32_t) list" where
  "TopK E H this k candidates =
     (if k = 0 then Inr []
      else
        (case TopK_collect E H this candidates [] of
           Inl u \<Rightarrow> Inl u
         | Inr top_k \<Rightarrow>
             (let top_k = std_sort E (\<lambda>a b. snd a > snd b) top_k
              in Inr (take (min (unat k) (length top_k)) top_k))))"

section \<open>Notions used to state the properties\<close>

text \<open>The matrix has \<open>depth'\<close> rows of \<open>width'\<close> counters each.\<close>

definition matrix_ok :: "sketch \<Rightarrow> bool" where
  "matrix_ok s \<longleftrightarrow>
     length (count_matrix' s) = unat (depth' s)
     \<and> (\<forall>row\<in>set (count_matrix' s). length row = unat (width' s))"

text \<open>The last line of \<^verbatim>\<open>Count\<close>: \<^verbatim>\<open>min_count == UINT32_MAX ? 0 : min_count\<close>.\<close>

definition final_count :: "uint32_t \<Rightarrow> uint32_t" where
  "final_count min_count = (if min_count = UINT32_MAX then 0 else min_count)"

text \<open>
  The state every constructor leaves at \<open>this\<close>: positive dimensions, a matrix of these
  dimensions, and the row hashers \<open>0, \<dots>, depth' - 1\<close> of this very object.
\<close>

definition well_formed :: "addr \<Rightarrow> sketch \<Rightarrow> bool" where
  "well_formed this s \<longleftrightarrow>
     width' s \<noteq> 0 \<and> depth' s \<noteq> 0 \<and> matrix_ok s
     \<and> hash_functions' s = map (\<lambda>i. HashFunction this (of_nat i)) [0..<unat (depth' s)]"

text \<open>
  The state a move leaves at its source: no dimensions and no matrix. (Its row hashers are
  whatever they were.)
\<close>

definition moved_from :: "sketch \<Rightarrow> bool" where
  "moved_from s \<longleftrightarrow> width' s = 0 \<and> depth' s = 0 \<and> count_matrix' s = []"

text \<open>A sketch at \<open>this\<close> with given dimensions and matrix, and its own row hashers.\<close>

definition sketch_of :: "addr \<Rightarrow> uint32_t \<Rightarrow> uint32_t \<Rightarrow> uint32_t list list \<Rightarrow> sketch" where
  "sketch_of this w d m =
     \<lparr>width' = w, depth' = d,
      hash_functions' = map (\<lambda>i. HashFunction this (of_nat i)) [0..<unat d],
      count_matrix' = m\<rparr>"

text \<open>The column that the hasher of row \<open>i\<close> of a sketch of width \<open>w\<close> gives to an item.\<close>

definition column :: "'k env \<Rightarrow> uint32_t \<Rightarrow> nat \<Rightarrow> 'k \<Rightarrow> nat" where
  "column E w i item =
     unat (CombineHashes E (std_hash E item) (CombineHashes E (of_nat i) SEED_BASE) mod ucast w)"

text \<open>A sequence of \<^verbatim>\<open>Insert\<close> calls on the same sketch.\<close>

fun Insert_all :: "'k env \<Rightarrow> heap \<Rightarrow> addr \<Rightarrow> 'k list \<Rightarrow> ub + heap" where
  "Insert_all E H this [] = Inr H"
| "Insert_all E H this (x # xs) =
     (case Insert E H this x of Inl u \<Rightarrow> Inl u | Inr H' \<Rightarrow> Insert_all E H' this xs)"

text \<open>
  Construct a sketch at \<open>this\<close>, insert the items in order, and ask for the count of
  \<open>x\<close>: \<open>None\<close> if the constructor throws or anything is undefined.
\<close>

definition Count_after ::
  "'k env \<Rightarrow> heap \<Rightarrow> addr \<Rightarrow> uint32_t \<Rightarrow> uint32_t \<Rightarrow> 'k list \<Rightarrow> 'k \<Rightarrow> uint32_t option" where
  "Count_after E H this width depth items x =
     (case CountMinSketch H this width depth of
        Returned H0 \<Rightarrow>
          (case Insert_all E H0 this items of
             Inr H1 \<Rightarrow> (case Count E H1 this x of Inr c \<Rightarrow> Some c | Inl u \<Rightarrow> None)
           | Inl u \<Rightarrow> None)
      | Thrown e H' \<Rightarrow> None
      | Undefined u \<Rightarrow> None)"

text \<open>How many of the items the hasher of row \<open>r\<close> sends to column \<open>c\<close>.\<close>

definition hits :: "'k env \<Rightarrow> uint32_t \<Rightarrow> nat \<Rightarrow> nat \<Rightarrow> 'k list \<Rightarrow> nat" where
  "hits E w r c xs = length (filter (\<lambda>x. column E w r x = c) xs)"

text \<open>
  "An explicit empty state: \<open>width = 0\<close>, \<open>depth = 0\<close>, no matrix, no hashers."
\<close>

definition empty_state :: "sketch \<Rightarrow> bool" where
  "empty_state s \<longleftrightarrow>
     width' s = 0 \<and> depth' s = 0 \<and> count_matrix' s = [] \<and> hash_functions' s = []"

text \<open>
  The two objects after a move from \<open>src\<close> to the address \<open>this\<close>: the new owner, and
  what is left at the source.
\<close>

definition moved_to :: "addr \<Rightarrow> sketch \<Rightarrow> sketch" where
  "moved_to this src =
     \<lparr>width' = width' src, depth' = depth' src,
      hash_functions' = map (\<lambda>i. HashFunction this (of_nat i)) [0..<unat (depth' src)],
      count_matrix' = map (\<lambda>row. resize row (unat (width' src)) 0) (count_matrix' src)\<rparr>"

definition left_behind :: "sketch \<Rightarrow> sketch" where
  "left_behind src = src\<lparr>count_matrix' := [], width' := 0, depth' := 0\<rparr>"

text \<open>
  The structural invariant: as many rows as the depth, each as long as the width, as many
  row hashers as the depth, and every hasher sends every item to a column below the width.
\<close>

definition invariant :: "'k env \<Rightarrow> heap \<Rightarrow> addr \<Rightarrow> bool" where
  "invariant E H this \<longleftrightarrow>
     (case H this of
        None \<Rightarrow> False
      | Some s \<Rightarrow>
          matrix_ok s \<and> length (hash_functions' s) = unat (depth' s)
          \<and> (\<forall>f\<in>set (hash_functions' s). \<forall>item.
                case call E H f item of Inl u \<Rightarrow> False | Inr h \<Rightarrow> unat h < unat (width' s)))"

text \<open>The column a hasher gives to an item in a store (0 if the call is undefined).\<close>

definition hashed_column :: "'k env \<Rightarrow> heap \<Rightarrow> hasher \<Rightarrow> 'k \<Rightarrow> nat" where
  "hashed_column E H f item = (case call E H f item of Inl u \<Rightarrow> 0 | Inr h \<Rightarrow> unat h)"

text \<open>
  \<^verbatim>\<open>Count\<close> as a reading of "skip the malformed row, or return 0 if no row is usable":
  the minimum over the rows that have a hasher, the right length and a column in range,
  and 0 when there is no such row. It is here to be compared with \<open>Count\<close>.
\<close>

definition usable_counters :: "'k env \<Rightarrow> heap \<Rightarrow> sketch \<Rightarrow> 'k \<Rightarrow> uint32_t list" where
  "usable_counters E H s item =
     concat (map (\<lambda>i.
        if i < length (count_matrix' s) \<and> i < length (hash_functions' s)
           \<and> length (count_matrix' s ! i) = unat (width' s)
        then (case call E H (hash_functions' s ! i) item of
                Inl u \<Rightarrow> []
              | Inr h \<Rightarrow> if unat h < unat (width' s) then [count_matrix' s ! i ! unat h] else [])
        else []) [0..<unat (depth' s)])"

definition Count_skipping :: "'k env \<Rightarrow> heap \<Rightarrow> sketch \<Rightarrow> 'k \<Rightarrow> uint32_t" where
  "Count_skipping E H s item =
     (case usable_counters E H s item of [] \<Rightarrow> 0 | c # cs \<Rightarrow> fold min cs c)"

text \<open>A sketch whose second row is too long: width 1, depth 2, rows \<open>[5]\<close> and \<open>[7, 8]\<close>.\<close>

definition ragged_sketch :: sketch where
  "ragged_sketch =
     \<lparr>width' = 1, depth' = 2, hash_functions' = [HashFunction 0 0, HashFunction 0 1],
      count_matrix' = [[5], [7, 8]]\<rparr>"

text \<open>
  What \<^verbatim>\<open>std::sort(first, last, comp)\<close> promises: the result is a rearrangement of the
  input in which no element is \<open>comp\<close>-before an earlier one. The order of equivalent
  elements is not fixed.
\<close>

definition sort_contract :: "('a \<Rightarrow> 'a \<Rightarrow> bool) \<Rightarrow> ('a list \<Rightarrow> 'a list) \<Rightarrow> bool" where
  "sort_contract cmp srt \<longleftrightarrow>
     (\<forall>xs. mset (srt xs) = mset xs \<and> sorted_wrt (\<lambda>a b. \<not> cmp b a) (srt xs))"

text \<open>
  A sample environment for evaluating the model on concrete inputs: keys are natural
  numbers, and \<^verbatim>\<open>std::sort\<close> is an insertion sort.
\<close>

fun insert_by :: "('a \<Rightarrow> 'a \<Rightarrow> bool) \<Rightarrow> 'a \<Rightarrow> 'a list \<Rightarrow> 'a list" where
  "insert_by cmp x [] = [x]"
| "insert_by cmp x (y # ys) = (if cmp x y then x # y # ys else y # insert_by cmp x ys)"

fun insertion_sort :: "('a \<Rightarrow> 'a \<Rightarrow> bool) \<Rightarrow> 'a list \<Rightarrow> 'a list" where
  "insertion_sort cmp [] = []"
| "insertion_sort cmp (x # xs) = insert_by cmp x (insertion_sort cmp xs)"

definition sample_env :: "nat env" where
  "sample_env = \<lparr>std_hash = of_nat, CombineHashes = (\<lambda>l r. l * 31 + r), std_sort = insertion_sort\<rparr>"

section \<open>Facts about the loops and the member functions\<close>

lemma for_loop_rule:
  assumes "P i s" and "i \<le> n"
    and "\<And>j t. i \<le> j \<Longrightarrow> j < n \<Longrightarrow> P j t \<Longrightarrow> \<exists>t'. body j t = Inr t' \<and> P (Suc j) t'"
  shows "\<exists>t. for_loop i n body s = Inr t \<and> P n t"
  using assms
proof (induction "n - i" arbitrary: i s)
  case 0
  then show ?case by (simp add: for_loop.simps)
next
  case (Suc k)
  then have lt: "i < n" by simp
  from Suc.prems(3)[OF le_refl lt Suc.prems(1)]
  obtain t' where t': "body i s = Inr t'" "P (Suc i) t'" by blast
  have "\<exists>t. for_loop (Suc i) n body t' = Inr t \<and> P n t"
  proof (rule Suc.hyps(1))
    show "k = n - Suc i" using Suc.hyps(2) by simp
    show "P (Suc i) t'" by (rule t')
    show "Suc i \<le> n" using lt by simp
    show "\<And>j t. Suc i \<le> j \<Longrightarrow> j < n \<Longrightarrow> P j t \<Longrightarrow> \<exists>t'. body j t = Inr t' \<and> P (Suc j) t'"
      using Suc.prems(3) by simp
  qed
  then show ?case using lt t' by (subst for_loop.simps) simp
qed

lemma push_hash_functions_eq:
  "push_hash_functions this i n hs = hs @ map (\<lambda>k. HashFunction this (of_nat k)) [i..<n]"
proof (induction "n - i" arbitrary: i hs)
  case 0
  then show ?case by (simp add: push_hash_functions.simps)
next
  case (Suc k)
  then have lt: "i < n" by simp
  have "push_hash_functions this (Suc i) n (hs @ [HashFunction this (of_nat i)])
        = (hs @ [HashFunction this (of_nat i)]) @ map (\<lambda>k. HashFunction this (of_nat k)) [Suc i..<n]"
    by (rule Suc.hyps(1)) (use Suc.hyps(2) in simp)
  then show ?case using lt
    by (subst push_hash_functions.simps) (simp add: upt_conv_Cons)
qed

lemma call_not_out_of_bounds: "call E H f item \<noteq> Inl out_of_bounds"
  by (simp add: call_def Let_def split: option.splits)

lemma vec_at_Inr: "i < length v \<Longrightarrow> vec_at v i = Inr (v ! i)"
  by (simp add: vec_at_def)

lemma unat_ucast_up: "unat (ucast (w::32 word) :: 64 word) = unat w"
proof -
  have "unat w < 2 ^ 32" using unsigned_less [of w, where 'a=nat] by simp
  then have "unat w < 2 ^ 64" by simp
  then show ?thesis by (simp add: unsigned_ucast_eq take_bit_nat_eq_self)
qed

lemma unat_mod_ucast: "unat ((x::64 word) mod ucast (w::32 word)) = unat x mod unat w"
  by (simp add: unat_mod unat_ucast_up)

lemma unat_ucast_down:
  assumes "unat (h::64 word) < unat (w :: 32 word)"
  shows "unat (ucast h :: 32 word) = unat h"
proof -
  have "unat w < 2 ^ 32" using unsigned_less [of w, where 'a=nat] by simp
  with assms have "unat h < 2 ^ 32" by simp
  then show ?thesis by (simp add: unsigned_ucast_eq take_bit_nat_eq_self)
qed

lemma matrix_loop:
  fixes s :: sketch and H :: heap
  assumes len: "length m = d" and rows: "\<forall>r<d. length (m ! r) = w"
    and body: "\<And>i j m'. i < d \<Longrightarrow> j < w \<Longrightarrow> length m' = d \<Longrightarrow> (\<forall>r<d. length (m' ! r) = w) \<Longrightarrow>
             (\<forall>r<d. \<forall>c<w. m' ! r ! c = (if r < i \<or> (r = i \<and> c < j) then v r c else m ! r ! c)) \<Longrightarrow>
             body i j (H(this \<mapsto> s\<lparr>count_matrix' := m'\<rparr>))
               = Inr (H(this \<mapsto> s\<lparr>count_matrix' := m'[i := (m' ! i)[j := v i j]]\<rparr>))"
  shows "\<exists>m'. for_loop 0 d (\<lambda>i. for_loop 0 w (body i)) (H(this \<mapsto> s\<lparr>count_matrix' := m\<rparr>))
               = Inr (H(this \<mapsto> s\<lparr>count_matrix' := m'\<rparr>))
             \<and> length m' = d \<and> (\<forall>r<d. length (m' ! r) = w \<and> (\<forall>c<w. m' ! r ! c = v r c))"
proof -
  define Q where "Q i j t \<longleftrightarrow> (\<exists>m'. t = H(this \<mapsto> s\<lparr>count_matrix' := m'\<rparr>) \<and> length m' = d
        \<and> (\<forall>r<d. length (m' ! r) = w)
        \<and> (\<forall>r<d. \<forall>c<w. m' ! r ! c = (if r < i \<or> (r = i \<and> c < j) then v r c else m ! r ! c)))"
    for i j t
  have inner_step: "\<exists>t'. body i j t = Inr t' \<and> Q i (Suc j) t'" if "i < d" "j < w" "Q i j t" for i j t
  proof -
    from that(3) obtain m' where m': "t = H(this \<mapsto> s\<lparr>count_matrix' := m'\<rparr>)" "length m' = d"
      "\<forall>r<d. length (m' ! r) = w"
      "\<forall>r<d. \<forall>c<w. m' ! r ! c = (if r < i \<or> (r = i \<and> c < j) then v r c else m ! r ! c)"
      unfolding Q_def by blast
    let ?m = "m'[i := (m' ! i)[j := v i j]]"
    have b: "body i j t = Inr (H(this \<mapsto> s\<lparr>count_matrix' := ?m\<rparr>))"
      unfolding m'(1) by (rule body) (use that m' in auto)
    have "length ?m = d" using m' by simp
    moreover have "\<forall>r<d. length (?m ! r) = w" using m' that by (simp add: nth_list_update)
    moreover have "\<forall>r<d. \<forall>c<w. ?m ! r ! c = (if r < i \<or> (r = i \<and> c < Suc j) then v r c else m ! r ! c)"
      using m' that by (auto simp: nth_list_update less_Suc_eq)
    ultimately have "Q i (Suc j) (H(this \<mapsto> s\<lparr>count_matrix' := ?m\<rparr>))"
      unfolding Q_def by blast
    with b show ?thesis by blast
  qed
  have outer_step: "\<exists>t'. for_loop 0 w (body i) t = Inr t' \<and> Q (Suc i) 0 t'" if "i < d" "Q i 0 t" for i t
  proof -
    have "\<exists>t'. for_loop 0 w (body i) t = Inr t' \<and> Q i w t'"
      by (rule for_loop_rule [where P = "Q i"]) (use that inner_step in auto)
    then obtain t' where t': "for_loop 0 w (body i) t = Inr t'" "Q i w t'" by blast
    from t'(2) have "Q (Suc i) 0 t'"
      unfolding Q_def by (auto simp: less_Suc_eq)
    with t' show ?thesis by blast
  qed
  have "Q 0 0 (H(this \<mapsto> s\<lparr>count_matrix' := m\<rparr>))"
    unfolding Q_def using len rows by auto
  then have "\<exists>t. for_loop 0 d (\<lambda>i. for_loop 0 w (body i)) (H(this \<mapsto> s\<lparr>count_matrix' := m\<rparr>)) = Inr t
        \<and> Q d 0 t"
    by (rule for_loop_rule [where P = "\<lambda>i. Q i 0"]) (use outer_step in auto)
  then show ?thesis unfolding Q_def by auto
qed

lemma matrix_eqI:
  assumes "length m' = d" "\<forall>r<d. length (m' ! r) = w \<and> (\<forall>c<w. m' ! r ! c = v r c)"
  shows "m' = map (\<lambda>r. map (v r) [0..<w]) [0..<d]"
  using assms by (auto simp: list_eq_iff_nth_eq)

lemma matrix_okD:
  "matrix_ok s \<Longrightarrow> length (count_matrix' s) = unat (depth' s)"
  "matrix_ok s \<Longrightarrow> r < unat (depth' s) \<Longrightarrow> length (count_matrix' s ! r) = unat (width' s)"
  by (auto simp: matrix_ok_def)

lemma Clear_matrix_ok:
  assumes H: "H this = Some s" and ok: "matrix_ok s"
  shows "Clear H this = Inr (H(this \<mapsto> s\<lparr>count_matrix' :=
           replicate (unat (depth' s)) (replicate (unat (width' s)) 0)\<rparr>))"
proof -
  let ?d = "unat (depth' s)" and ?w = "unat (width' s)"
  have H_eq: "H = H(this \<mapsto> s\<lparr>count_matrix' := count_matrix' s\<rparr>)"
    using H by (simp add: map_upd_triv)
  have "\<exists>m'. for_loop 0 ?d (\<lambda>i. for_loop 0 ?w (Clear_body this i))
              (H(this \<mapsto> s\<lparr>count_matrix' := count_matrix' s\<rparr>))
            = Inr (H(this \<mapsto> s\<lparr>count_matrix' := m'\<rparr>))
          \<and> length m' = ?d \<and> (\<forall>r<?d. length (m' ! r) = ?w \<and> (\<forall>c<?w. m' ! r ! c = 0))"
  proof (rule matrix_loop)
    show "length (count_matrix' s) = ?d" using ok by (simp add: matrix_okD)
    show "\<forall>r<?d. length (count_matrix' s ! r) = ?w" using ok by (simp add: matrix_okD)
    show "Clear_body this i j (H(this \<mapsto> s\<lparr>count_matrix' := m'\<rparr>))
          = Inr (H(this \<mapsto> s\<lparr>count_matrix' := m'[i := (m' ! i)[j := 0]]\<rparr>))"
      if "i < ?d" "j < ?w" "length m' = ?d" "\<forall>r<?d. length (m' ! r) = ?w" for i j m'
      using that by (simp add: Clear_body_def vec_at_def)
  qed
  then obtain m' where m': "for_loop 0 ?d (\<lambda>i. for_loop 0 ?w (Clear_body this i)) H
            = Inr (H(this \<mapsto> s\<lparr>count_matrix' := m'\<rparr>))"
     "length m' = ?d" "\<forall>r<?d. length (m' ! r) = ?w \<and> (\<forall>c<?w. m' ! r ! c = 0)"
    using H_eq by auto
  have "m' = map (\<lambda>r. map (\<lambda>c. 0) [0..<?w]) [0..<?d]"
    by (rule matrix_eqI) (use m' in auto)
  then have "m' = replicate ?d (replicate ?w 0)"
    by (simp add: map_replicate_const)
  with m'(1) show ?thesis using H by (simp add: Clear_def)
qed

lemma Merge_matrix_ok:
  assumes H: "H this = Some s" and Ho: "H other = Some src"
    and ok: "matrix_ok s" and oko: "matrix_ok src"
    and dims: "width' s = width' src" "depth' s = depth' src"
  shows "Merge H this other = Returned (H(this \<mapsto> s\<lparr>count_matrix' :=
           map (\<lambda>r. map (\<lambda>c. count_matrix' s ! r ! c + count_matrix' src ! r ! c)
                  [0..<unat (width' s)]) [0..<unat (depth' s)]\<rparr>))"
proof -
  let ?d = "unat (depth' s)" and ?w = "unat (width' s)"
  let ?v = "\<lambda>r c. count_matrix' s ! r ! c + count_matrix' src ! r ! c"
  have H_eq: "H = H(this \<mapsto> s\<lparr>count_matrix' := count_matrix' s\<rparr>)"
    using H by (simp add: map_upd_triv)
  have "\<exists>m'. for_loop 0 ?d (\<lambda>i. for_loop 0 ?w (Merge_body this other i))
              (H(this \<mapsto> s\<lparr>count_matrix' := count_matrix' s\<rparr>))
            = Inr (H(this \<mapsto> s\<lparr>count_matrix' := m'\<rparr>))
          \<and> length m' = ?d \<and> (\<forall>r<?d. length (m' ! r) = ?w \<and> (\<forall>c<?w. m' ! r ! c = ?v r c))"
  proof (rule matrix_loop)
    show "length (count_matrix' s) = ?d" using ok by (simp add: matrix_okD)
    show "\<forall>r<?d. length (count_matrix' s ! r) = ?w" using ok by (simp add: matrix_okD)
    show "Merge_body this other i j (H(this \<mapsto> s\<lparr>count_matrix' := m'\<rparr>))
          = Inr (H(this \<mapsto> s\<lparr>count_matrix' := m'[i := (m' ! i)[j := ?v i j]]\<rparr>))"
      if "i < ?d" "j < ?w" "length m' = ?d" "\<forall>r<?d. length (m' ! r) = ?w"
        "\<forall>r<?d. \<forall>c<?w. m' ! r ! c
           = (if r < i \<or> (r = i \<and> c < j) then ?v r c else count_matrix' s ! r ! c)" for i j m'
    proof (cases "this = other")
      case True
      then have "src = s" using H Ho by simp
      then show ?thesis using that True
        by (simp add: Merge_body_def vec_at_def)
    next
      case False
      have "length (count_matrix' src) = ?d" "length (count_matrix' src ! i) = ?w"
        using oko dims that by (simp_all add: matrix_okD)
      then show ?thesis using that False Ho
        by (simp add: Merge_body_def vec_at_def)
    qed
  qed
  then obtain m' where m': "for_loop 0 ?d (\<lambda>i. for_loop 0 ?w (Merge_body this other i)) H
            = Inr (H(this \<mapsto> s\<lparr>count_matrix' := m'\<rparr>))"
     "length m' = ?d" "\<forall>r<?d. length (m' ! r) = ?w \<and> (\<forall>c<?w. m' ! r ! c = ?v r c)"
    using H_eq by auto
  have "m' = map (\<lambda>r. map (?v r) [0..<?w]) [0..<?d]"
    by (rule matrix_eqI) (use m' in auto)
  with m'(1) show ?thesis using H Ho dims by (simp add: Merge_def)
qed

lemma call_frame:
  assumes "H this = Some s"
  shows "call E (H(this \<mapsto> s\<lparr>count_matrix' := m'\<rparr>)) f item = call E H f item"
  using assms by (simp add: call_def)

lemma Insert_rows:
  assumes H: "H this = Some s" and ok: "matrix_ok s"
    and hs: "length (hash_functions' s) = unat (depth' s)"
    and calls: "\<forall>k<unat (depth' s). \<exists>h. call E H (hash_functions' s ! k) item = Inr h
                  \<and> unat h = hcol k \<and> hcol k < unat (width' s)"
  shows "Insert E H this item = Inr (H(this \<mapsto> s\<lparr>count_matrix' :=
           map (\<lambda>r. map (\<lambda>c. count_matrix' s ! r ! c + (if c = hcol r then 1 else 0))
                  [0..<unat (width' s)]) [0..<unat (depth' s)]\<rparr>))"
proof -
  let ?d = "unat (depth' s)" and ?w = "unat (width' s)" and ?m = "count_matrix' s"
  define P where "P i t \<longleftrightarrow> (\<exists>m'. t = H(this \<mapsto> s\<lparr>count_matrix' := m'\<rparr>) \<and> length m' = ?d
        \<and> (\<forall>r<?d. length (m' ! r) = ?w)
        \<and> (\<forall>r<?d. \<forall>c<?w. m' ! r ! c = ?m ! r ! c + (if r < i \<and> c = hcol r then 1 else 0)))"
    for i t
  have step: "\<exists>t'. Insert_body E this item i t = Inr t' \<and> P (Suc i) t'" if "i < ?d" "P i t" for i t
  proof -
    from that(2) obtain m' where m': "t = H(this \<mapsto> s\<lparr>count_matrix' := m'\<rparr>)" "length m' = ?d"
      "\<forall>r<?d. length (m' ! r) = ?w"
      "\<forall>r<?d. \<forall>c<?w. m' ! r ! c = ?m ! r ! c + (if r < i \<and> c = hcol r then 1 else 0)"
      unfolding P_def by blast
    from calls that(1) obtain h where h: "call E H (hash_functions' s ! i) item = Inr h"
      "unat h = hcol i" "hcol i < ?w" by blast
    have idx: "unat (ucast h :: uint32_t) = hcol i"
      using h unat_ucast_down [of h "width' s"] by simp
    let ?m' = "m'[i := (m' ! i)[hcol i := m' ! i ! hcol i + 1]]"
    have b: "Insert_body E this item i t = Inr (H(this \<mapsto> s\<lparr>count_matrix' := ?m'\<rparr>))"
      unfolding m'(1) using that(1) hs h m' idx H
      by (simp add: Insert_body_def vec_at_def call_frame)
    have "length ?m' = ?d" using m' by simp
    moreover have "\<forall>r<?d. length (?m' ! r) = ?w" using m' that by (simp add: nth_list_update)
    moreover have "\<forall>r<?d. \<forall>c<?w. ?m' ! r ! c
        = ?m ! r ! c + (if r < Suc i \<and> c = hcol r then 1 else 0)"
      using m' that h by (auto simp: nth_list_update less_Suc_eq)
    ultimately have "P (Suc i) (H(this \<mapsto> s\<lparr>count_matrix' := ?m'\<rparr>))"
      unfolding P_def by blast
    with b show ?thesis by blast
  qed
  have "P 0 H"
    unfolding P_def using H ok
    by (intro exI [of _ ?m]) (simp add: map_upd_triv matrix_okD)
  then have "\<exists>t. for_loop 0 ?d (Insert_body E this item) H = Inr t \<and> P ?d t"
    by (rule for_loop_rule [where P = P]) (use step in auto)
  then obtain m' where m': "for_loop 0 ?d (Insert_body E this item) H
         = Inr (H(this \<mapsto> s\<lparr>count_matrix' := m'\<rparr>))" "length m' = ?d"
      "\<forall>r<?d. length (m' ! r) = ?w \<and>
         (\<forall>c<?w. m' ! r ! c = ?m ! r ! c + (if c = hcol r then 1 else 0))"
    unfolding P_def by auto
  have "m' = map (\<lambda>r. map (\<lambda>c. ?m ! r ! c + (if c = hcol r then 1 else 0)) [0..<?w]) [0..<?d]"
    by (rule matrix_eqI) (use m' in auto)
  with m'(1) show ?thesis using H by (simp add: Insert_def)
qed

lemma Count_loop_rows:
  assumes ok: "matrix_ok s"
    and hs: "length (hash_functions' s) = unat (depth' s)"
    and calls: "\<forall>k<unat (depth' s). \<exists>h. call E H (hash_functions' s ! k) item = Inr h
                  \<and> unat h = hcol k \<and> hcol k < unat (width' s)"
  shows "Count_loop E H s item i acc
         = Inr (final_count (foldl (\<lambda>a k. min a (count_matrix' s ! k ! hcol k)) acc
                  [i..<unat (depth' s)]))"
proof (induction "unat (depth' s) - i" arbitrary: i acc)
  case 0
  then show ?case by (simp add: Count_loop.simps final_count_def)
next
  case (Suc n)
  then have lt: "i < unat (depth' s)" by simp
  from calls lt obtain h where h: "call E H (hash_functions' s ! i) item = Inr h"
      "unat h = hcol i" "hcol i < unat (width' s)" by blast
  have IH: "Count_loop E H s item (Suc i) (min acc (count_matrix' s ! i ! hcol i))
      = Inr (final_count (foldl (\<lambda>a k. min a (count_matrix' s ! k ! hcol k))
               (min acc (count_matrix' s ! i ! hcol i)) [Suc i..<unat (depth' s)]))"
    by (rule Suc.hyps(1)) (use Suc.hyps(2) in simp)
  show ?case
    using lt h hs ok IH
    by (subst Count_loop.simps) (simp add: vec_at_def matrix_okD upt_conv_Cons)
qed

lemma Count_rows:
  assumes H: "H this = Some s" and ok: "matrix_ok s"
    and hs: "length (hash_functions' s) = unat (depth' s)"
    and calls: "\<forall>k<unat (depth' s). \<exists>h. call E H (hash_functions' s ! k) item = Inr h
                  \<and> unat h = hcol k \<and> hcol k < unat (width' s)"
  shows "Count E H this item
         = Inr (final_count (foldl (\<lambda>a k. min a (count_matrix' s ! k ! hcol k)) UINT32_MAX
                  [0..<unat (depth' s)]))"
proof (cases "count_matrix' s = []")
  case True
  then have "unat (depth' s) = 0" using ok by (simp add: matrix_ok_def)
  then show ?thesis using H True by (simp add: Count_def final_count_def)
next
  case False
  then show ?thesis
    using H ok hs Count_loop_rows [OF ok hs calls, of 0 UINT32_MAX]
    by (simp add: Count_def matrix_okD)
qed

lemma column_less: "w \<noteq> 0 \<Longrightarrow> column E w i item < unat w"
  by (simp add: column_def unat_mod_ucast unat_gt_0)

lemma call_own:
  assumes "H this = Some s" "width' s \<noteq> 0"
  shows "call E H (HashFunction this sd) item
         = Inr (CombineHashes E (std_hash E item) (CombineHashes E sd SEED_BASE) mod ucast (width' s))"
  using assms by (simp add: call_def HashFunction_def)

lemma well_formed_calls:
  assumes "H this = Some s" "well_formed this s"
  shows "\<forall>k<unat (depth' s). \<exists>h. call E H (hash_functions' s ! k) item = Inr h
           \<and> unat h = column E (width' s) k item \<and> column E (width' s) k item < unat (width' s)"
  using assms by (simp add: well_formed_def call_own column_less) (simp add: column_def)

lemma well_formed_hs: "well_formed this s \<Longrightarrow> length (hash_functions' s) = unat (depth' s)"
  by (simp add: well_formed_def)

lemma Count_well_formed:
  assumes "H this = Some s" "well_formed this s"
  shows "Count E H this item
         = Inr (final_count (foldl (\<lambda>a k. min a (count_matrix' s ! k ! column E (width' s) k item))
                  UINT32_MAX [0..<unat (depth' s)]))"
proof -
  have ok: "matrix_ok s" using assms(2) by (simp add: well_formed_def)
  show ?thesis
    by (rule Count_rows [of H this s, OF assms(1) ok well_formed_hs [OF assms(2)]
          well_formed_calls [of H this s, OF assms]])
qed

lemma foldl_min_zero:
  "\<forall>k\<in>set ks. f k = (0::uint32_t) \<Longrightarrow> foldl (\<lambda>a k. min a (f k)) 0 ks = 0"
  by (induction ks) auto

lemma foldl_min_zero_rows:
  assumes "\<forall>k\<in>set ks. f k = (0::uint32_t)" "ks \<noteq> []"
  shows "foldl (\<lambda>a k. min a (f k)) acc ks = 0"
  using assms by (cases ks) (auto simp: foldl_min_zero)

lemma Count_zero_matrix:
  assumes H: "H this = Some s" and wf: "well_formed this s"
    and z: "count_matrix' s = replicate (unat (depth' s)) (replicate (unat (width' s)) 0)"
  shows "Count E H this item = Inr 0"
proof -
  have d: "unat (depth' s) \<noteq> 0" using wf by (simp add: well_formed_def unat_eq_0)
  have w: "width' s \<noteq> 0" using wf by (simp add: well_formed_def)
  have "\<forall>k\<in>set [0..<unat (depth' s)]. count_matrix' s ! k ! column E (width' s) k item = 0"
  proof
    fix k assume "k \<in> set [0..<unat (depth' s)]"
    then have k: "k < unat (depth' s)" by simp
    have c: "column E (width' s) k item < unat (width' s)" by (rule column_less [OF w])
    show "count_matrix' s ! k ! column E (width' s) k item = 0"
      by (subst z) (use k c in simp)
  qed
  then have "foldl (\<lambda>a k. min a (count_matrix' s ! k ! column E (width' s) k item))
                  UINT32_MAX [0..<unat (depth' s)] = 0"
    by (rule foldl_min_zero_rows) (use d in simp)
  then show ?thesis
    using H wf by (simp add: Count_well_formed final_count_def UINT32_MAX_def)
qed

lemma CountMinSketch_Returned:
  assumes "width \<noteq> 0" "depth \<noteq> 0"
  shows "CountMinSketch H this width depth = Returned (H(this \<mapsto>
           \<lparr>width' = width, depth' = depth,
            hash_functions' = map (\<lambda>i. HashFunction this (of_nat i)) [0..<unat depth],
            count_matrix' = replicate (unat depth) (replicate (unat width) 0)\<rparr>))"
  using assms by (simp add: CountMinSketch_def push_hash_functions_eq)

lemma well_formed_fresh:
  assumes "width \<noteq> 0" "depth \<noteq> 0"
  shows "well_formed this \<lparr>width' = width, depth' = depth,
            hash_functions' = map (\<lambda>i. HashFunction this (of_nat i)) [0..<unat depth],
            count_matrix' = replicate (unat depth) (replicate (unat width) 0)\<rparr>"
  using assms by (simp add: well_formed_def matrix_ok_def)

section \<open>Construction\<close>

text \<open>
  Claim C7. The constructor throws \<^verbatim>\<open>std::invalid_argument\<close> exactly when the width or
  the depth is zero, and then leaves the store as it was. Otherwise it returns a sketch
  with these dimensions, a \<open>depth \<times> width\<close> matrix of zeros and \<open>depth\<close> row hashers,
  the one of row \<open>i\<close> being \<^verbatim>\<open>HashFunction(i)\<close>, which maps an item to
  \<^verbatim>\<open>CombineHashes(hash(item), CombineHashes(i, SEED_BASE)) % width\<close>; and
  \<^verbatim>\<open>Count\<close> of any item on the new sketch is 0.
\<close>

theorem construction_guard:
  "((\<exists>e H'. CountMinSketch H this width depth = Thrown e H') \<longleftrightarrow> width = 0 \<or> depth = 0)
   \<and> (width = 0 \<or> depth = 0 \<longrightarrow>
        CountMinSketch H this width depth
          = Thrown (invalid_argument ''Width and depth must be greater than 0.'') H)
   \<and> (width \<noteq> 0 \<and> depth \<noteq> 0 \<longrightarrow>
        (\<exists>s. CountMinSketch H this width depth = Returned (H(this \<mapsto> s))
           \<and> width' s = width \<and> depth' s = depth
           \<and> count_matrix' s = replicate (unat depth) (replicate (unat width) 0)
           \<and> length (hash_functions' s) = unat depth
           \<and> (\<forall>i<unat depth. hash_functions' s ! i = HashFunction this (of_nat i)
                \<and> (\<forall>item. call E (H(this \<mapsto> s)) (hash_functions' s ! i) item
                     = Inr (CombineHashes E (std_hash E item) (CombineHashes E (of_nat i) SEED_BASE)
                            mod ucast width)))
           \<and> (\<forall>item. Count E (H(this \<mapsto> s)) this item = Inr 0)))"
proof (cases "width = 0 \<or> depth = 0")
  case True
  then show ?thesis by (auto simp: CountMinSketch_def)
next
  case False
  then have nz: "width \<noteq> 0" "depth \<noteq> 0" by auto
  let ?s = "\<lparr>width' = width, depth' = depth,
            hash_functions' = map (\<lambda>i. HashFunction this (of_nat i)) [0..<unat depth],
            count_matrix' = replicate (unat depth) (replicate (unat width) 0)\<rparr>"
  have r: "CountMinSketch H this width depth = Returned (H(this \<mapsto> ?s))"
    by (rule CountMinSketch_Returned [OF nz])
  have wf: "well_formed this ?s" by (rule well_formed_fresh [OF nz])
  have c: "Count E (H(this \<mapsto> ?s)) this item = Inr 0" for item
    by (rule Count_zero_matrix [OF _ wf]) simp_all
  have h: "call E (H(this \<mapsto> ?s)) (hash_functions' ?s ! i) item
           = Inr (CombineHashes E (std_hash E item) (CombineHashes E (of_nat i) SEED_BASE)
                  mod ucast width)" if "i < unat depth" for i item
    using that nz by (simp add: call_own)
  show ?thesis
    using nz r c h by (intro conjI impI) (simp, simp, intro exI [of _ ?s], simp)
qed

theorem construction_guard_witness:
  "CountMinSketch Map.empty 0 0 5
     = Thrown (invalid_argument ''Width and depth must be greater than 0.'') Map.empty
   \<and> (\<exists>s. CountMinSketch Map.empty 0 10 3 = Returned [0 \<mapsto> s]
         \<and> count_matrix' s = replicate 3 (replicate 10 0)
         \<and> length (hash_functions' s) = 3
         \<and> Count sample_env [0 \<mapsto> s] 0 (42::nat) = Inr 0)"
  using construction_guard [of Map.empty 0 0 5 sample_env]
    construction_guard [of Map.empty 0 10 3 sample_env]
  by auto

section \<open>Clear\<close>

lemma moved_from_matrix_ok: "moved_from s \<Longrightarrow> matrix_ok s"
  by (simp add: moved_from_def matrix_ok_def)

lemma Count_moved_from: "H this = Some s \<Longrightarrow> moved_from s \<Longrightarrow> Count E H this item = Inr 0"
  by (simp add: Count_def moved_from_def)

lemma well_formed_zeroed:
  "well_formed this s \<Longrightarrow>
   well_formed this (s\<lparr>count_matrix' := replicate (unat (depth' s)) (replicate (unat (width' s)) 0)\<rparr>)"
  by (simp add: well_formed_def matrix_ok_def)

text \<open>
  Claim C5. On a sketch in a state that the constructors and member functions produce
  (well formed, or moved from), \<^verbatim>\<open>Clear\<close> returns without undefined behaviour, sets
  every counter to zero and changes neither the width, nor the depth, nor the row hashers,
  nor any other object; afterwards \<^verbatim>\<open>Count\<close> is 0 for every item. \<^verbatim>\<open>Count\<close> is also
  0 for every item right after construction.
\<close>

theorem Clear_resets:
  assumes H: "H this = Some s" and st: "well_formed this s \<or> moved_from s"
  shows "(\<exists>s'. Clear H this = Inr (H(this \<mapsto> s'))
            \<and> width' s' = width' s \<and> depth' s' = depth' s
            \<and> hash_functions' s' = hash_functions' s
            \<and> count_matrix' s' = replicate (unat (depth' s)) (replicate (unat (width' s)) 0)
            \<and> (\<forall>item. Count E (H(this \<mapsto> s')) this item = Inr 0))
     \<and> (width \<noteq> 0 \<and> depth \<noteq> 0 \<longrightarrow>
          (\<exists>H'. CountMinSketch H this width depth = Returned H'
             \<and> (\<forall>item. Count E H' this item = Inr 0)))"
proof -
  let ?s = "s\<lparr>count_matrix' := replicate (unat (depth' s)) (replicate (unat (width' s)) 0)\<rparr>"
  have ok: "matrix_ok s" using st by (auto simp: well_formed_def moved_from_matrix_ok)
  have c: "Clear H this = Inr (H(this \<mapsto> ?s))"
    by (rule Clear_matrix_ok [of H this s, OF H ok])
  have z: "Count E (H(this \<mapsto> ?s)) this item = Inr 0" for item
    using st
  proof
    assume "well_formed this s"
    then have "well_formed this ?s" by (rule well_formed_zeroed)
    then show ?thesis by (intro Count_zero_matrix [where s = ?s]) simp_all
  next
    assume "moved_from s"
    then have "moved_from ?s" by (simp add: moved_from_def)
    then show ?thesis by (intro Count_moved_from [where s = ?s]) simp_all
  qed
  have n: "\<exists>H'. CountMinSketch H this width depth = Returned H'
             \<and> (\<forall>item. Count E H' this item = Inr 0)" if nz: "width \<noteq> 0" "depth \<noteq> 0"
  proof -
    let ?n = "\<lparr>width' = width, depth' = depth,
            hash_functions' = map (\<lambda>i. HashFunction this (of_nat i)) [0..<unat depth],
            count_matrix' = replicate (unat depth) (replicate (unat width) 0)\<rparr>"
    have wf: "well_formed this ?n" by (rule well_formed_fresh [OF nz])
    have "Count E (H(this \<mapsto> ?n)) this item = Inr 0" for item
      by (rule Count_zero_matrix [OF _ wf]) simp_all
    then show ?thesis using CountMinSketch_Returned [OF nz, of H this] by simp
  qed
  have "\<exists>s'. Clear H this = Inr (H(this \<mapsto> s'))
            \<and> width' s' = width' s \<and> depth' s' = depth' s
            \<and> hash_functions' s' = hash_functions' s
            \<and> count_matrix' s' = replicate (unat (depth' s)) (replicate (unat (width' s)) 0)
            \<and> (\<forall>item. Count E (H(this \<mapsto> s')) this item = Inr 0)"
    using c z by (intro exI [of _ ?s]) simp
  then show ?thesis using n by blast
qed

theorem Clear_resets_witness:
  "\<exists>s'. Clear [0 \<mapsto> sketch_of 0 2 1 [[3, 4]]] 0 = Inr [0 \<mapsto> s']
      \<and> width' s' = 2 \<and> depth' s' = 1
      \<and> hash_functions' s' = [HashFunction 0 0]
      \<and> count_matrix' s' = [[0, 0]]
      \<and> Count sample_env [0 \<mapsto> s'] 0 (7::nat) = Inr 0
      \<and> (\<exists>H'. CountMinSketch [0 \<mapsto> sketch_of 0 2 1 [[3, 4]]] 0 10 3 = Returned H'
            \<and> Count sample_env H' 0 (7::nat) = Inr 0)"
proof -
  have wf: "well_formed 0 (sketch_of 0 2 1 [[3, 4]])"
    by (simp add: well_formed_def sketch_of_def matrix_ok_def)
  have H: "[0 \<mapsto> sketch_of 0 2 1 [[3, 4]]] 0 = Some (sketch_of 0 2 1 [[3, 4]])" by simp
  have r: "replicate 2 (0::uint32_t) = [0, 0]" by (simp add: numeral_2_eq_2)
  show ?thesis
    using Clear_resets [of "[0 \<mapsto> sketch_of 0 2 1 [[3, 4]]]" 0 "sketch_of 0 2 1 [[3, 4]]" sample_env 10 3, OF H]
      wf
    by (auto simp: sketch_of_def r)
qed

section \<open>Merge\<close>

text \<open>
  Claim C2. For two live sketches whose matrices have the dimensions their fields say,
  \<^verbatim>\<open>Merge\<close> throws \<^verbatim>\<open>std::invalid_argument\<close> exactly when the widths or the depths
  differ, and then the store is unchanged. Otherwise it returns, every counter of
  \<open>this\<close> is the sum (in \<^verbatim>\<open>uint32_t\<close>) of the two counters at that place, the width,
  depth and row hashers of \<open>this\<close> are unchanged, nothing but \<open>this\<close> is written, and so
  \<open>other\<close> is unchanged when it is another object than \<open>this\<close>.
\<close>

theorem Merge_guard:
  assumes H: "H this = Some s" and Ho: "H other = Some src"
    and ok: "matrix_ok s" and oko: "matrix_ok src"
  shows "((\<exists>e H'. Merge H this other = Thrown e H')
            \<longleftrightarrow> width' s \<noteq> width' src \<or> depth' s \<noteq> depth' src)
     \<and> (width' s \<noteq> width' src \<or> depth' s \<noteq> depth' src \<longrightarrow>
           Merge H this other
             = Thrown (invalid_argument ''Incompatible CountMinSketch dimensions for merge.'') H)
     \<and> (width' s = width' src \<and> depth' s = depth' src \<longrightarrow>
           (\<exists>s'. Merge H this other = Returned (H(this \<mapsto> s'))
              \<and> width' s' = width' s \<and> depth' s' = depth' s
              \<and> hash_functions' s' = hash_functions' s
              \<and> length (count_matrix' s') = unat (depth' s)
              \<and> (\<forall>i<unat (depth' s). length (count_matrix' s' ! i) = unat (width' s)
                   \<and> (\<forall>j<unat (width' s). count_matrix' s' ! i ! j
                          = count_matrix' s ! i ! j + count_matrix' src ! i ! j))
              \<and> (this \<noteq> other \<longrightarrow> (H(this \<mapsto> s')) other = Some src)))"
proof (cases "width' s \<noteq> width' src \<or> depth' s \<noteq> depth' src")
  case True
  then show ?thesis using H Ho by (auto simp: Merge_def)
next
  case False
  then have dims: "width' s = width' src" "depth' s = depth' src" by auto
  let ?s = "s\<lparr>count_matrix' :=
           map (\<lambda>r. map (\<lambda>c. count_matrix' s ! r ! c + count_matrix' src ! r ! c)
                  [0..<unat (width' s)]) [0..<unat (depth' s)]\<rparr>"
  have m: "Merge H this other = Returned (H(this \<mapsto> ?s))"
    by (rule Merge_matrix_ok [of H this s other src, OF H Ho ok oko dims])
  show ?thesis
    using m dims Ho by (intro conjI impI) (simp, simp, intro exI [of _ ?s], simp)
qed

theorem Merge_guard_witness:
  "Merge [0 \<mapsto> sketch_of 0 2 1 [[3, 4]], 1 \<mapsto> sketch_of 1 1 1 [[5]]] 0 1
     = Thrown (invalid_argument ''Incompatible CountMinSketch dimensions for merge.'')
         [0 \<mapsto> sketch_of 0 2 1 [[3, 4]], 1 \<mapsto> sketch_of 1 1 1 [[5]]]
   \<and> (\<exists>s'. Merge [0 \<mapsto> sketch_of 0 2 1 [[3, 4]], 1 \<mapsto> sketch_of 1 2 1 [[10, 20]]] 0 1
             = Returned [0 \<mapsto> s', 1 \<mapsto> sketch_of 1 2 1 [[10, 20]]]
         \<and> count_matrix' s' ! 0 ! 0 = 13 \<and> count_matrix' s' ! 0 ! 1 = 24
         \<and> hash_functions' s' = [HashFunction 0 0])"
proof -
  let ?a = "sketch_of 0 2 1 [[3, 4]]" and ?b = "sketch_of 1 1 1 [[5]]"
  let ?c = "sketch_of 1 2 1 [[10, 20]]"
  have ok: "matrix_ok ?a" "matrix_ok ?b" "matrix_ok ?c"
    by (simp_all add: sketch_of_def matrix_ok_def)
  have 1: "Merge [0 \<mapsto> ?a, 1 \<mapsto> ?b] 0 1
     = Thrown (invalid_argument ''Incompatible CountMinSketch dimensions for merge.'')
         [0 \<mapsto> ?a, 1 \<mapsto> ?b]"
    using Merge_guard [of "[0 \<mapsto> ?a, 1 \<mapsto> ?b]" 0 ?a 1 ?b] ok
    by (simp add: sketch_of_def)
  have 2: "\<exists>s'. Merge [0 \<mapsto> ?a, 1 \<mapsto> ?c] 0 1 = Returned [0 \<mapsto> s', 1 \<mapsto> ?c]
         \<and> count_matrix' s' ! 0 ! 0 = 13 \<and> count_matrix' s' ! 0 ! 1 = 24
         \<and> hash_functions' s' = [HashFunction 0 0]"
    using Merge_guard [of "[0 \<mapsto> ?a, 1 \<mapsto> ?c]" 0 ?a 1 ?c] ok
    by (auto simp: sketch_of_def fun_upd_twist)
  show ?thesis using 1 2 by blast
qed

section \<open>Insert and Count\<close>

lemma Insert_well_formed:
  assumes H: "H this = Some s" and wf: "well_formed this s"
  shows "Insert E H this item = Inr (H(this \<mapsto> s\<lparr>count_matrix' :=
           map (\<lambda>r. map (\<lambda>c. count_matrix' s ! r ! c
                               + (if c = column E (width' s) r item then 1 else 0))
                  [0..<unat (width' s)]) [0..<unat (depth' s)]\<rparr>))"
proof -
  have ok: "matrix_ok s" using wf by (simp add: well_formed_def)
  show ?thesis
    by (rule Insert_rows [of H this s, OF H ok well_formed_hs [OF wf]
          well_formed_calls [of H this s, OF H wf]])
qed

lemma well_formed_matrix:
  assumes "well_formed this s" "length m = unat (depth' s)"
    "\<forall>r<unat (depth' s). length (m ! r) = unat (width' s)"
  shows "well_formed this (s\<lparr>count_matrix' := m\<rparr>)"
  using assms by (auto simp: well_formed_def matrix_ok_def in_set_conv_nth)

lemma Insert_all_well_formed:
  assumes "H this = Some s" "well_formed this s"
  shows "Insert_all E H this xs = Inr (H(this \<mapsto> s\<lparr>count_matrix' :=
           map (\<lambda>r. map (\<lambda>c. count_matrix' s ! r ! c + of_nat (hits E (width' s) r c xs))
                  [0..<unat (width' s)]) [0..<unat (depth' s)]\<rparr>))"
  using assms
proof (induction xs arbitrary: H s)
  case Nil
  have "map (\<lambda>r. map (\<lambda>c. count_matrix' s ! r ! c) [0..<unat (width' s)]) [0..<unat (depth' s)]
        = count_matrix' s"
    using Nil(2) by (auto simp: list_eq_iff_nth_eq well_formed_def matrix_ok_def)
  then show ?case using Nil by (simp add: hits_def map_upd_triv)
next
  case (Cons x xs)
  let ?m1 = "map (\<lambda>r. map (\<lambda>c. count_matrix' s ! r ! c
                               + (if c = column E (width' s) r x then 1 else 0))
                  [0..<unat (width' s)]) [0..<unat (depth' s)]"
  let ?s1 = "s\<lparr>count_matrix' := ?m1\<rparr>"
  let ?H1 = "H(this \<mapsto> ?s1)"
  have i: "Insert E H this x = Inr ?H1" by (rule Insert_well_formed [of H this s, OF Cons.prems])
  have wf1: "well_formed this ?s1" by (rule well_formed_matrix [OF Cons.prems(2)]) simp_all
  let ?m2 = "map (\<lambda>r. map (\<lambda>c. count_matrix' ?s1 ! r ! c + of_nat (hits E (width' ?s1) r c xs))
                  [0..<unat (width' ?s1)]) [0..<unat (depth' ?s1)]"
  let ?m3 = "map (\<lambda>r. map (\<lambda>c. count_matrix' s ! r ! c + of_nat (hits E (width' s) r c (x # xs)))
                  [0..<unat (width' s)]) [0..<unat (depth' s)]"
  have IH: "Insert_all E ?H1 this xs = Inr (?H1(this \<mapsto> ?s1\<lparr>count_matrix' := ?m2\<rparr>))"
    by (rule Cons.IH [OF _ wf1]) simp
  have eq: "?m2 = ?m3"
    by (auto simp: hits_def)
  have "Insert_all E H this (x # xs) = Insert_all E ?H1 this xs"
    using i by simp
  also have "\<dots> = Inr (?H1(this \<mapsto> ?s1\<lparr>count_matrix' := ?m2\<rparr>))"
    by (rule IH)
  also have "?H1(this \<mapsto> ?s1\<lparr>count_matrix' := ?m2\<rparr>) = H(this \<mapsto> s\<lparr>count_matrix' := ?m3\<rparr>)"
    unfolding eq by simp
  finally show ?case .
qed

lemma foldl_min_le_acc: "foldl (\<lambda>a k. min a (f k)) acc ks \<le> (acc::uint32_t)"
proof (induction ks arbitrary: acc)
  case Nil
  then show ?case by simp
next
  case (Cons k ks)
  have "foldl (\<lambda>a k. min a (f k)) (min acc (f k)) ks \<le> min acc (f k)" by (rule Cons.IH)
  then show ?case by simp
qed

lemma foldl_min_le: "k \<in> set ks \<Longrightarrow> foldl (\<lambda>a k. min a (f k)) acc ks \<le> (f k::uint32_t)"
proof (induction ks arbitrary: acc)
  case Nil
  then show ?case by simp
next
  case (Cons j ks)
  show ?case
  proof (cases "k = j")
    case True
    have "foldl (\<lambda>a k. min a (f k)) (min acc (f j)) ks \<le> min acc (f j)"
      by (rule foldl_min_le_acc)
    then show ?thesis using True by simp
  next
    case False
    then have "k \<in> set ks" using Cons.prems by simp
    then show ?thesis using Cons.IH by simp
  qed
qed

lemma foldl_min_cases:
  "foldl (\<lambda>a k. min a (f k)) acc ks = (acc::uint32_t)
   \<or> (\<exists>k\<in>set ks. foldl (\<lambda>a k. min a (f k)) acc ks = f k)"
proof (induction ks arbitrary: acc)
  case Nil
  then show ?case by simp
next
  case (Cons j ks)
  from Cons.IH [of "min acc (f j)"] show ?case
    by (auto simp: min_def split: if_splits)
qed

lemma count_list_le_hits: "count_list xs x \<le> hits E w r (column E w r x) xs"
  by (induction xs) (auto simp: hits_def)

lemma hits_le_length: "hits E w r c xs \<le> length xs"
  by (simp add: hits_def)

lemma Count_after_eq:
  assumes nz: "w \<noteq> 0" "d \<noteq> 0"
  shows "Count_after E H this w d xs x
         = Some (final_count (foldl (\<lambda>a k. min a (of_nat (hits E w k (column E w k x) xs)))
                   UINT32_MAX [0..<unat d]))"
proof -
  let ?n = "\<lparr>width' = w, depth' = d,
            hash_functions' = map (\<lambda>i. HashFunction this (of_nat i)) [0..<unat d],
            count_matrix' = replicate (unat d) (replicate (unat w) 0)\<rparr>"
  let ?M = "map (\<lambda>r. map (\<lambda>c. count_matrix' ?n ! r ! c + of_nat (hits E (width' ?n) r c xs))
                  [0..<unat (width' ?n)]) [0..<unat (depth' ?n)]"
  let ?H0 = "H(this \<mapsto> ?n)"
  let ?s1 = "?n\<lparr>count_matrix' := ?M\<rparr>"
  let ?H1 = "?H0(this \<mapsto> ?s1)"
  have wf: "well_formed this ?n" by (rule well_formed_fresh [OF nz])
  have c: "CountMinSketch H this w d = Returned ?H0" by (rule CountMinSketch_Returned [OF nz])
  have i: "Insert_all E ?H0 this xs = Inr ?H1"
    by (rule Insert_all_well_formed [of ?H0 this ?n, OF _ wf]) simp
  have wf1: "well_formed this ?s1" by (rule well_formed_matrix [OF wf]) simp_all
  have "Count E ?H1 this x
         = Inr (final_count (foldl (\<lambda>a k. min a (count_matrix' ?s1 ! k ! column E (width' ?s1) k x))
                  UINT32_MAX [0..<unat (depth' ?s1)]))"
    by (rule Count_well_formed [of ?H1 this ?s1, OF _ wf1]) simp
  moreover have "foldl (\<lambda>a k. min a (count_matrix' ?s1 ! k ! column E (width' ?s1) k x))
                  UINT32_MAX [0..<unat (depth' ?s1)]
     = foldl (\<lambda>a k. min a (of_nat (hits E w k (column E w k x) xs))) UINT32_MAX [0..<unat d]"
    by (rule foldl_cong) (use column_less [OF nz(1), of E] in simp_all)
  ultimately have "Count E ?H1 this x
     = Inr (final_count (foldl (\<lambda>a k. min a (of_nat (hits E w k (column E w k x) xs)))
              UINT32_MAX [0..<unat d]))"
    by (simp only:)
  then show ?thesis
    by (simp add: Count_after_def c i)
qed

text \<open>
  Claim C1, as amended. A sketch constructed with positive width and depth takes any
  sequence of fewer than \<open>2^32 - 1\<close> \<^verbatim>\<open>Insert\<close> calls without undefined behaviour,
  and then \<^verbatim>\<open>Count(x)\<close> is at least the number of times \<open>x\<close> was inserted, for every
  \<open>x\<close>.
\<close>

theorem no_underestimation:
  assumes nz: "width \<noteq> 0" "depth \<noteq> 0" and len: "length xs < 2 ^ 32 - 1"
  shows "\<exists>c. Count_after E H this width depth xs x = Some c \<and> count_list xs x \<le> unat c"
proof -
  let ?f = "\<lambda>k. (of_nat (hits E width k (column E width k x) xs) :: uint32_t)"
  let ?v = "foldl (\<lambda>a k. min a (?f k)) UINT32_MAX [0..<unat depth]"
  have un: "unat (?f k) = hits E width k (column E width k x) xs" for k
  proof -
    have "hits E width k (column E width k x) xs < 2 ^ 32"
      using hits_le_length [of E width k "column E width k x" xs] len by simp
    then show ?thesis by (simp add: unat_of_nat)
  qed
  have lt: "unat (?f k) < unat UINT32_MAX" for k
    using hits_le_length [of E width k "column E width k x" xs] len
    by (simp add: un UINT32_MAX_def)
  have d: "0 < unat depth" using nz by (simp add: unat_gt_0)
  then have "?v \<le> ?f 0" by (intro foldl_min_le) simp
  then have "unat ?v \<le> unat (?f 0)" by (simp add: word_le_nat_alt)
  with lt [of 0] have ne: "?v \<noteq> UINT32_MAX" by auto
  with foldl_min_cases [of ?f UINT32_MAX "[0..<unat depth]"]
  obtain k where k: "?v = ?f k" by auto
  have "count_list xs x \<le> unat ?v"
    unfolding k un by (rule count_list_le_hits)
  then show ?thesis
    using ne by (simp add: Count_after_eq [OF nz] final_count_def)
qed

theorem no_underestimation_witness:
  "\<exists>c. Count_after sample_env Map.empty 0 4 2 [1, 2, 1, 3, 1] (1::nat) = Some c
        \<and> count_list [1, 2, 1, 3, 1] (1::nat) \<le> unat c"
  using no_underestimation [of 4 2 "[1, 2, 1, 3, 1]" sample_env Map.empty 0 1]
  by simp

text \<open>
  Claim C1 as first stated, without the bound, fails: the counters are \<^verbatim>\<open>uint32_t\<close> and wrap around.
  In a sketch of width 1 and depth 1, after \<open>2^32\<close> insertions of a key its only counter
  is 0 again; after \<open>2^32 - 1\<close> insertions the counter is \<^verbatim>\<open>UINT32_MAX\<close>, which
  \<^verbatim>\<open>Count\<close> reads as "no row was usable" and turns into 0.
\<close>

lemma column_width_1: "column E 1 k x = 0"
  by (simp add: column_def)

lemma hits_replicate: "hits E 1 k 0 (replicate n x) = n"
  by (simp add: hits_def column_width_1)

lemma Count_after_1_1:
  "Count_after E H this 1 1 (replicate n x) x = Some (final_count (min UINT32_MAX (of_nat n)))"
  by (simp add: Count_after_eq column_width_1 hits_replicate)

theorem no_underestimation_counterexample:
  "Count_after sample_env Map.empty 0 1 1 (replicate 4294967296 (0::nat)) 0 = Some 0
   \<and> count_list (replicate 4294967296 (0::nat)) 0 = 4294967296
   \<and> Count_after sample_env Map.empty 0 1 1 (replicate 4294967295 (0::nat)) 0 = Some 0
   \<and> count_list (replicate 4294967295 (0::nat)) 0 = 4294967295"
proof -
  have c: "count_list (replicate n x) x = n" for n and x :: nat
    by (induction n) simp_all
  show ?thesis
    by (simp add: Count_after_1_1 c final_count_def UINT32_MAX_def)
qed

section \<open>Hashing does not depend on the instance\<close>

text \<open>
  Claim C10. Two sketches constructed with the same positive width and depth, at any two
  addresses of any two stores, have row hashers that send every item to the same column:
  the hasher of row \<open>i\<close> computes
  \<^verbatim>\<open>CombineHashes(hash(item), CombineHashes(i, SEED_BASE)) % width\<close> with
  \<^verbatim>\<open>SEED_BASE = 15445\<close>, in which the address does not occur. Hence \<^verbatim>\<open>Count\<close> after the same insertions is defined and the
  same in both.
\<close>

theorem hash_determinism:
  assumes nz: "w \<noteq> 0" "d \<noteq> 0"
  shows "SEED_BASE = 15445
     \<and> (\<exists>sa sb. CountMinSketch H1 a w d = Returned (H1(a \<mapsto> sa))
           \<and> CountMinSketch H2 b w d = Returned (H2(b \<mapsto> sb))
           \<and> (\<forall>i<unat d. \<forall>item.
                  call E (H1(a \<mapsto> sa)) (hash_functions' sa ! i) item
                    = Inr (CombineHashes E (std_hash E item) (CombineHashes E (of_nat i) SEED_BASE)
                           mod ucast w)
                \<and> call E (H2(b \<mapsto> sb)) (hash_functions' sb ! i) item
                    = call E (H1(a \<mapsto> sa)) (hash_functions' sa ! i) item)
           \<and> (\<forall>xs x. Count_after E H1 a w d xs x \<noteq> None
                \<and> Count_after E H2 b w d xs x = Count_after E H1 a w d xs x))"
proof -
  let ?n = "\<lambda>this. \<lparr>width' = w, depth' = d,
            hash_functions' = map (\<lambda>i. HashFunction this (of_nat i)) [0..<unat d],
            count_matrix' = replicate (unat d) (replicate (unat w) 0)\<rparr>"
  have 1: "CountMinSketch H1 a w d = Returned (H1(a \<mapsto> ?n a))"
    by (rule CountMinSketch_Returned [OF nz])
  have 2: "CountMinSketch H2 b w d = Returned (H2(b \<mapsto> ?n b))"
    by (rule CountMinSketch_Returned [OF nz])
  have 3: "call E (H(this \<mapsto> ?n this)) (hash_functions' (?n this) ! i) item
           = Inr (CombineHashes E (std_hash E item) (CombineHashes E (of_nat i) SEED_BASE)
                  mod ucast w)" if "i < unat d" for i item this and H :: heap
    using that nz by (simp add: call_own)
  have "\<exists>sa sb. CountMinSketch H1 a w d = Returned (H1(a \<mapsto> sa))
           \<and> CountMinSketch H2 b w d = Returned (H2(b \<mapsto> sb))
           \<and> (\<forall>i<unat d. \<forall>item.
                  call E (H1(a \<mapsto> sa)) (hash_functions' sa ! i) item
                    = Inr (CombineHashes E (std_hash E item) (CombineHashes E (of_nat i) SEED_BASE)
                           mod ucast w)
                \<and> call E (H2(b \<mapsto> sb)) (hash_functions' sb ! i) item
                    = call E (H1(a \<mapsto> sa)) (hash_functions' sa ! i) item)
           \<and> (\<forall>xs x. Count_after E H1 a w d xs x \<noteq> None
                \<and> Count_after E H2 b w d xs x = Count_after E H1 a w d xs x)"
    using 1 2 3 [of _ H1 a] 3 [of _ H2 b]
    by (intro exI [of _ "?n a"] exI [of _ "?n b"]) (simp add: Count_after_eq [OF nz])
  moreover have "SEED_BASE = 15445" by (simp add: SEED_BASE_def)
  ultimately show ?thesis by (rule conjI [rotated])
qed

theorem hash_determinism_witness:
  "Count_after sample_env Map.empty 0 4 2 [7, 2, 7] (7::nat) \<noteq> None
   \<and> Count_after sample_env [0 \<mapsto> sketch_of 0 1 1 [[9]]] 5 4 2 [7, 2, 7] (7::nat)
       = Count_after sample_env Map.empty 0 4 2 [7, 2, 7] 7"
  using hash_determinism [of 4 2 Map.empty 0 "[0 \<mapsto> sketch_of 0 1 1 [[9]]]" 5 sample_env]
  by auto

section \<open>Count on a sketch that is not well formed\<close>

lemma Count_loop_in_bounds:
  assumes "length (count_matrix' s) = unat (depth' s)"
    and "length (hash_functions' s) = unat (depth' s)"
  shows "Count_loop E H s item i acc \<noteq> Inl out_of_bounds"
proof (induction "unat (depth' s) - i" arbitrary: i acc)
  case 0
  then show ?case by (simp add: Count_loop.simps)
next
  case (Suc n)
  then have lt: "i < unat (depth' s)" by simp
  have IH: "Count_loop E H s item (Suc i) a \<noteq> Inl out_of_bounds" for a
    by (rule Suc.hyps(1)) (use Suc.hyps(2) in simp)
  show ?case
    using lt assms IH call_not_out_of_bounds [of E H "hash_functions' s ! i" item]
    by (subst Count_loop.simps) (auto simp: vec_at_def split: sum.splits)
qed

lemma Count_loop_defined:
  assumes "length (count_matrix' s) = unat (depth' s)"
    and "length (hash_functions' s) = unat (depth' s)"
    and "\<forall>k<unat (depth' s). \<exists>h. call E H (hash_functions' s ! k) item = Inr h"
  shows "\<exists>c. Count_loop E H s item i acc = Inr c"
proof (induction "unat (depth' s) - i" arbitrary: i acc)
  case 0
  then show ?case by (simp add: Count_loop.simps)
next
  case (Suc n)
  then have lt: "i < unat (depth' s)" by simp
  have IH: "\<exists>c. Count_loop E H s item (Suc i) a = Inr c" for a
    by (rule Suc.hyps(1)) (use Suc.hyps(2) in simp)
  from assms(3) lt obtain h where h: "call E H (hash_functions' s ! i) item = Inr h" by blast
  show ?case
    using lt assms(1,2) IH h
    by (subst Count_loop.simps) (auto simp: vec_at_def)
qed

lemma Count_loop_wrong_length:
  assumes "length (count_matrix' s) = unat (depth' s)"
    and "length (hash_functions' s) = unat (depth' s)"
    and "j < unat (depth' s)" and "length (count_matrix' s ! j) \<noteq> unat (width' s)"
    and "\<forall>k. i \<le> k \<and> k < j \<longrightarrow> length (count_matrix' s ! k) = unat (width' s)
           \<and> (\<exists>h. call E H (hash_functions' s ! k) item = Inr h)"
    and "i \<le> j"
  shows "Count_loop E H s item i acc
         = Inr (if count_matrix' s ! j = [] then 0 else count_matrix' s ! j ! 0)"
  using assms(5,6)
proof (induction "j - i" arbitrary: i acc)
  case 0
  then have "i = j" by simp
  then show ?case
    using assms(1-4) by (subst Count_loop.simps) (simp add: vec_at_def)
next
  case (Suc n)
  then have lt: "i < j" by simp
  then have row: "length (count_matrix' s ! i) = unat (width' s)"
    and "\<exists>h. call E H (hash_functions' s ! i) item = Inr h"
    using Suc.prems(1) by auto
  then obtain h where h: "call E H (hash_functions' s ! i) item = Inr h" by blast
  have IH: "Count_loop E H s item (Suc i) a
         = Inr (if count_matrix' s ! j = [] then 0 else count_matrix' s ! j ! 0)" for a
    by (rule Suc.hyps(1)) (use Suc.hyps(2) Suc.prems lt in auto)
  show ?case
    using lt assms(1-3) row h IH
    by (subst Count_loop.simps) (simp add: vec_at_def)
qed

lemma Count_loop_skipping_columns:
  assumes "length (count_matrix' s) = unat (depth' s)"
    and "length (hash_functions' s) = unat (depth' s)"
    and "\<forall>k<unat (depth' s). length (count_matrix' s ! k) = unat (width' s)
           \<and> call E H (hash_functions' s ! k) item = Inr (hc k)"
  shows "Count_loop E H s item i acc
         = Inr (final_count (foldl (\<lambda>a k. if unat (hc k) < unat (width' s)
                                              then min a (count_matrix' s ! k ! unat (hc k)) else a)
                  acc [i..<unat (depth' s)]))"
proof (induction "unat (depth' s) - i" arbitrary: i acc)
  case 0
  then show ?case by (simp add: Count_loop.simps final_count_def)
next
  case (Suc n)
  then have lt: "i < unat (depth' s)" by simp
  have IH: "Count_loop E H s item (Suc i) a
         = Inr (final_count (foldl (\<lambda>a k. if unat (hc k) < unat (width' s)
                                              then min a (count_matrix' s ! k ! unat (hc k)) else a)
                  a [Suc i..<unat (depth' s)]))" for a
    by (rule Suc.hyps(1)) (use Suc.hyps(2) in simp)
  show ?case
    using lt assms IH
    by (subst Count_loop.simps) (simp add: vec_at_def upt_conv_Cons)
qed

lemma ragged_sketch_fields:
  "width' ragged_sketch = 1" "depth' ragged_sketch = 2"
  "hash_functions' ragged_sketch = [HashFunction 0 0, HashFunction 0 1]"
  "count_matrix' ragged_sketch = [[5], [7, 8]]"
  by (simp_all add: ragged_sketch_def)

lemma ragged_sketch_call:
  "call E [0 \<mapsto> ragged_sketch] (HashFunction 0 sd) item = Inr 0"
  by (simp add: call_def ragged_sketch_fields HashFunction_def)

text \<open>
  Claim C3, as amended. In every state of a live sketch, \<^verbatim>\<open>Count\<close> never indexes a
  vector out of its bounds, and it returns a value whenever the calls of the row hashers
  are defined. It returns 0 when the matrix is empty or the number of rows or of hashers is
  not the depth. At the first row whose length is not the width it stops and returns the
  first counter of that row, or 0 if that row is empty: it does not skip the row. When all
  rows have the right length it returns the minimum over the rows whose computed column is
  below the width, skipping the others, and 0 when no row is left (or when that minimum is
  \<^verbatim>\<open>UINT32_MAX\<close>).
\<close>

theorem Count_defensive:
  assumes H: "H this = Some s"
  shows "Count E H this item \<noteq> Inl out_of_bounds
     \<and> ((\<forall>f\<in>set (hash_functions' s). \<exists>h. call E H f item = Inr h) \<longrightarrow>
          (\<exists>c. Count E H this item = Inr c))
     \<and> (count_matrix' s = [] \<or> length (count_matrix' s) \<noteq> unat (depth' s)
          \<or> length (hash_functions' s) \<noteq> unat (depth' s) \<longrightarrow>
          Count E H this item = Inr 0)
     \<and> (\<forall>j. length (count_matrix' s) = unat (depth' s)
              \<and> length (hash_functions' s) = unat (depth' s)
              \<and> j < unat (depth' s) \<and> length (count_matrix' s ! j) \<noteq> unat (width' s)
              \<and> (\<forall>k<j. length (count_matrix' s ! k) = unat (width' s)
                    \<and> (\<exists>h. call E H (hash_functions' s ! k) item = Inr h)) \<longrightarrow>
            Count E H this item
              = Inr (if count_matrix' s ! j = [] then 0 else count_matrix' s ! j ! 0))
     \<and> (\<forall>hc. length (count_matrix' s) = unat (depth' s)
              \<and> length (hash_functions' s) = unat (depth' s)
              \<and> (\<forall>k<unat (depth' s). length (count_matrix' s ! k) = unat (width' s)
                    \<and> call E H (hash_functions' s ! k) item = Inr (hc k)) \<longrightarrow>
            Count E H this item
              = Inr (final_count (foldl (\<lambda>a k. if unat (hc k) < unat (width' s)
                                              then min a (count_matrix' s ! k ! unat (hc k)) else a)
                       UINT32_MAX [0..<unat (depth' s)])))"
proof -
  let ?guard = "count_matrix' s = [] \<or> length (count_matrix' s) \<noteq> unat (depth' s)
          \<or> length (hash_functions' s) \<noteq> unat (depth' s)"
  have g: "Count E H this item = Inr 0" if ?guard
    using that H by (auto simp: Count_def)
  have l: "Count E H this item = Count_loop E H s item 0 UINT32_MAX" if "\<not> ?guard"
    using that H by (auto simp: Count_def)
  have 1: "Count E H this item \<noteq> Inl out_of_bounds"
  proof (cases ?guard)
    case True
    then show ?thesis using g by simp
  next
    case False
    then show ?thesis using l Count_loop_in_bounds [of s E H item 0 UINT32_MAX] by simp
  qed
  have 2: "\<exists>c. Count E H this item = Inr c"
    if "\<forall>f\<in>set (hash_functions' s). \<exists>h. call E H f item = Inr h"
  proof (cases ?guard)
    case True
    then show ?thesis using g by simp
  next
    case False
    then have "\<forall>k<unat (depth' s). \<exists>h. call E H (hash_functions' s ! k) item = Inr h"
      using that by simp
    then show ?thesis
      using False l Count_loop_defined [of s E H item 0 UINT32_MAX] by simp
  qed
  have 4: "Count E H this item
              = Inr (if count_matrix' s ! j = [] then 0 else count_matrix' s ! j ! 0)"
    if "length (count_matrix' s) = unat (depth' s)"
      "length (hash_functions' s) = unat (depth' s)"
      "j < unat (depth' s)" "length (count_matrix' s ! j) \<noteq> unat (width' s)"
      "\<forall>k<j. length (count_matrix' s ! k) = unat (width' s)
                    \<and> (\<exists>h. call E H (hash_functions' s ! k) item = Inr h)" for j
  proof -
    have "\<not> ?guard" using that(1-3) by auto
    then show ?thesis
      using l Count_loop_wrong_length [of s j 0 E H item UINT32_MAX] that by simp
  qed
  have 5: "Count E H this item
              = Inr (final_count (foldl (\<lambda>a k. if unat (hc k) < unat (width' s)
                                              then min a (count_matrix' s ! k ! unat (hc k)) else a)
                       UINT32_MAX [0..<unat (depth' s)]))"
    if "length (count_matrix' s) = unat (depth' s)"
      "length (hash_functions' s) = unat (depth' s)"
      "\<forall>k<unat (depth' s). length (count_matrix' s ! k) = unat (width' s)
                    \<and> call E H (hash_functions' s ! k) item = Inr (hc k)" for hc
  proof (cases "count_matrix' s = []")
    case True
    then have "unat (depth' s) = 0" using that(1) by simp
    then show ?thesis using g True by (simp add: final_count_def)
  next
    case False
    then have "\<not> ?guard" using that(1,2) by simp
    then show ?thesis
      using l Count_loop_skipping_columns [of s E H item hc 0 UINT32_MAX] that by simp
  qed
  show ?thesis using 1 2 g 4 5 by blast
qed

theorem Count_defensive_witness:
  "Count sample_env [0 \<mapsto> ragged_sketch] 0 (3::nat) \<noteq> Inl out_of_bounds
   \<and> Count sample_env [0 \<mapsto> ragged_sketch] 0 (3::nat) = Inr 7
   \<and> Count sample_env [0 \<mapsto> sketch_of 0 2 3 [[1, 2]]] 0 (3::nat) = Inr 0"
proof -
  have 1: "Count sample_env [0 \<mapsto> ragged_sketch] 0 (3::nat) = Inr 7"
    using Count_defensive [of "[0 \<mapsto> ragged_sketch]" 0 ragged_sketch sample_env 3,
        THEN conjunct2, THEN conjunct2, THEN conjunct2, THEN conjunct1, THEN spec, of 1]
    by (simp add: ragged_sketch_fields ragged_sketch_call)
  have 2: "Count sample_env [0 \<mapsto> sketch_of 0 2 3 [[1, 2]]] 0 (3::nat) = Inr 0"
    using Count_defensive [of "[0 \<mapsto> sketch_of 0 2 3 [[1, 2]]]" 0 "sketch_of 0 2 3 [[1, 2]]"
        sample_env 3]
    by (simp add: sketch_of_def)
  show ?thesis using 1 2 by simp
qed

text \<open>
  Claim C3 as first stated has \<^verbatim>\<open>Count\<close> skip a malformed row. On the sketch with
  rows \<open>[5]\<close> and \<open>[7, 8]\<close> and width 1 that would give 5, the counter of the one good row;
  \<^verbatim>\<open>Count\<close> returns 7, the first counter of the malformed row.
\<close>

theorem Count_skipping_counterexample:
  "Count sample_env [0 \<mapsto> ragged_sketch] 0 (3::nat) = Inr 7
   \<and> Count_skipping sample_env [0 \<mapsto> ragged_sketch] ragged_sketch (3::nat) = 5"
proof -
  have u: "[0..<2] = [0, Suc 0]"
    by (simp add: upt_conv_Cons)
  have l1: "Count_loop sample_env [0 \<mapsto> ragged_sketch] ragged_sketch (3::nat) 1 5 = Inr 7"
    by (subst Count_loop.simps) (simp add: ragged_sketch_fields vec_at_def)
  have l0: "Count_loop sample_env [0 \<mapsto> ragged_sketch] ragged_sketch (3::nat) 0 UINT32_MAX
            = Count_loop sample_env [0 \<mapsto> ragged_sketch] ragged_sketch (3::nat) 1 5"
    by (subst Count_loop.simps)
       (simp add: ragged_sketch_fields ragged_sketch_call vec_at_def UINT32_MAX_def)
  have 1: "Count sample_env [0 \<mapsto> ragged_sketch] 0 (3::nat) = Inr 7"
    using l0 l1 by (simp add: Count_def ragged_sketch_fields)
  have 2: "Count_skipping sample_env [0 \<mapsto> ragged_sketch] ragged_sketch (3::nat) = 5"
    by (simp add: Count_skipping_def usable_counters_def ragged_sketch_fields ragged_sketch_call u)
  show ?thesis using 1 2 by simp
qed

section \<open>TopK\<close>

lemma TopK_collect_eq:
  assumes "\<forall>c\<in>set cs. Count E H this c = Inr (f c)"
  shows "TopK_collect E H this cs acc = Inr (acc @ map (\<lambda>c. (c, f c)) cs)"
  using assms by (induction cs arbitrary: acc) simp_all

lemma Count_total:
  assumes H: "H this = Some s" and st: "well_formed this s \<or> moved_from s"
  shows "\<exists>f. \<forall>c. Count E H this c = Inr (f c)"
  using st
proof
  assume wf: "well_formed this s"
  show ?thesis
    by (rule exI [of _ "\<lambda>c. final_count
          (foldl (\<lambda>a k. min a (count_matrix' s ! k ! column E (width' s) k c))
             UINT32_MAX [0..<unat (depth' s)])"])
       (use H wf in \<open>simp add: Count_well_formed\<close>)
next
  assume mf: "moved_from s"
  show ?thesis
    by (rule exI [of _ "\<lambda>c. 0"]) (use H mf in \<open>simp add: Count_moved_from\<close>)
qed

lemma mset_insert_by: "mset (insert_by cmp x xs) = add_mset x (mset xs)"
  by (induction xs) simp_all

lemma mset_insertion_sort: "mset (insertion_sort cmp xs) = mset xs"
  by (induction xs) (simp_all add: mset_insert_by)

lemma set_insert_by: "set (insert_by cmp x xs) = insert x (set xs)"
  using mset_insert_by [of cmp x xs, THEN arg_cong, of set_mset] by simp

lemma descending_insert_by:
  fixes x :: "'k \<times> uint32_t"
  assumes "sorted_wrt (\<lambda>a b. snd b \<le> snd a) xs"
  shows "sorted_wrt (\<lambda>a b. snd b \<le> snd a) (insert_by (\<lambda>a b. snd b < snd a) x xs)"
  using assms
proof (induction xs)
  case Nil
  then show ?case by simp
next
  case (Cons y ys)
  show ?case
  proof (cases "snd y < snd x")
    case True
    then have "\<forall>z\<in>set ys. snd z \<le> snd x" using Cons.prems by fastforce
    then show ?thesis using True Cons.prems by simp
  next
    case False
    then show ?thesis using Cons by (auto simp: set_insert_by)
  qed
qed

lemma insertion_sort_contract:
  "sort_contract (\<lambda>a b. snd b < snd a)
     (insertion_sort (\<lambda>(a::'k \<times> uint32_t) b. snd b < snd a))"
proof -
  have "sorted_wrt (\<lambda>a b. snd b \<le> snd a)
          (insertion_sort (\<lambda>(a::'k \<times> uint32_t) b. snd b < snd a) xs)" for xs
    by (induction xs) (simp_all add: descending_insert_by)
  then show ?thesis
    by (simp add: sort_contract_def mset_insertion_sort not_less)
qed

text \<open>
  Claim C6. Let \<^verbatim>\<open>std::sort\<close> keep its promise for the comparison of \<^verbatim>\<open>TopK\<close>, and
  let the sketch be in a state that the constructors and member functions produce. Then for
  every \<open>k\<close> and every list of candidates \<^verbatim>\<open>TopK\<close> returns a list of exactly
  \<open>min k (length candidates)\<close> pairs, sorted by descending estimate, each pair a candidate
  with the value \<^verbatim>\<open>Count\<close> gives for it; for \<open>k = 0\<close> the list is empty. The list is
  the first \<open>k\<close> entries of a ranking of all the candidates: a rearrangement of the
  candidates, each paired with its \<^verbatim>\<open>Count\<close>, in descending order of estimate.
\<close>

theorem TopK_ranking:
  assumes srt: "sort_contract (\<lambda>a b. snd b < snd a) (std_sort E (\<lambda>a b. snd b < snd a))"
    and H: "H this = Some s" and st: "well_formed this s \<or> moved_from s"
  shows "\<exists>r. TopK E H this k candidates = Inr r
           \<and> length r = min (unat k) (length candidates)
           \<and> sorted_wrt (\<lambda>a b. snd a \<ge> snd b) r
           \<and> (\<forall>(c, e)\<in>set r. c \<in> set candidates \<and> Count E H this c = Inr e)
           \<and> (k = 0 \<longrightarrow> r = [])
           \<and> (\<exists>ranked. mset (map fst ranked) = mset candidates
                  \<and> (\<forall>(c, e)\<in>set ranked. Count E H this c = Inr e)
                  \<and> sorted_wrt (\<lambda>a b. snd a \<ge> snd b) ranked
                  \<and> r = take (unat k) ranked)"
proof -
  from Count_total [of H this s E, OF H st]
  obtain f where f: "\<And>c. Count E H this c = Inr (f c)" by blast
  let ?pairs = "map (\<lambda>c. (c, f c)) candidates"
  let ?sorted = "std_sort E (\<lambda>a b. snd b < snd a) ?pairs"
  let ?r = "take (unat k) ?sorted"
  have col: "TopK_collect E H this candidates [] = Inr ?pairs"
    using TopK_collect_eq [of candidates E H this f "[]"] f by simp
  have ms: "mset ?sorted = mset ?pairs"
    and so: "sorted_wrt (\<lambda>a b. \<not> snd a < snd b) ?sorted"
    using srt by (simp_all add: sort_contract_def)
  have len: "length ?sorted = length candidates"
    using mset_eq_length [OF ms] by simp
  have set: "set ?sorted = set ?pairs"
    using mset_eq_setD [OF ms] .
  have r: "TopK E H this k candidates = Inr ?r"
  proof (cases "k = 0")
    case True
    then show ?thesis by (simp add: TopK_def)
  next
    case False
    have "take (min (unat k) (length ?sorted)) ?sorted = ?r"
      by (simp add: min_def)
    then show ?thesis using False col by (simp add: TopK_def Let_def)
  qed
  have 1: "length ?r = min (unat k) (length candidates)"
    using len by (simp add: min.commute)
  have desc: "sorted_wrt (\<lambda>a b. snd a \<ge> snd b) ?sorted"
    using so by (simp add: not_less)
  then have 2: "sorted_wrt (\<lambda>a b. snd a \<ge> snd b) ?r"
    by (rule sorted_wrt_take)
  have all: "\<forall>(c, e)\<in>set ?sorted. c \<in> set candidates \<and> Count E H this c = Inr e"
    using set f by auto
  have 3: "\<forall>(c, e)\<in>set ?r. c \<in> set candidates \<and> Count E H this c = Inr e"
    using all set_take_subset [of "unat k" ?sorted] by blast
  have 4: "k = 0 \<longrightarrow> ?r = []" by simp
  have fsts: "map fst ?pairs = candidates"
    by (induction candidates) simp_all
  have "mset (map fst ?sorted) = image_mset fst (mset ?sorted)" by (simp only: mset_map)
  also have "\<dots> = image_mset fst (mset ?pairs)" by (simp only: ms)
  also have "\<dots> = mset (map fst ?pairs)" by (simp only: mset_map)
  finally have perm: "mset (map fst ?sorted) = mset candidates"
    by (simp only: fsts)
  have 5: "\<exists>ranked. mset (map fst ranked) = mset candidates
                  \<and> (\<forall>(c, e)\<in>set ranked. Count E H this c = Inr e)
                  \<and> sorted_wrt (\<lambda>a b. snd a \<ge> snd b) ranked
                  \<and> ?r = take (unat k) ranked"
    using perm all desc by (intro exI [of _ ?sorted]) auto
  show ?thesis using r 1 2 3 4 5 by blast
qed

theorem TopK_ranking_witness:
  "\<exists>r. TopK sample_env [0 \<mapsto> sketch_of 0 2 1 [[3, 4]]] 0 2 [5, 7, 6] = Inr r
        \<and> length r = 2
        \<and> sorted_wrt (\<lambda>a b. snd a \<ge> snd b) r
        \<and> (\<forall>(c, e)\<in>set r. c \<in> set [5, 7, 6]
              \<and> Count sample_env [0 \<mapsto> sketch_of 0 2 1 [[3, 4]]] 0 c = Inr e)
        \<and> (\<exists>ranked. mset (map fst ranked) = mset [5, 7, 6]
               \<and> (\<forall>(c, e)\<in>set ranked.
                     Count sample_env [0 \<mapsto> sketch_of 0 2 1 [[3, 4]]] 0 c = Inr e)
               \<and> sorted_wrt (\<lambda>a b. snd a \<ge> snd b) ranked
               \<and> r = take 2 ranked)"
proof -
  have wf: "well_formed 0 (sketch_of 0 2 1 [[3, 4]])"
    by (simp add: well_formed_def sketch_of_def matrix_ok_def)
  have c: "sort_contract (\<lambda>a b. snd b < snd a) (std_sort sample_env (\<lambda>a b. snd b < snd a))"
    using insertion_sort_contract [where 'k = nat] by (simp add: sample_env_def)
  show ?thesis
    using TopK_ranking [of sample_env "[0 \<mapsto> sketch_of 0 2 1 [[3, 4]]]" 0
        "sketch_of 0 2 1 [[3, 4]]" 2 "[5, 7, 6]", OF c] wf
    by auto
qed

section \<open>Ownership transfer\<close>

lemma length_resize: "length (resize v n x) = n"
  by (simp add: resize_def)

lemma resize_same: "length v = n \<Longrightarrow> resize v n x = v"
  by (simp add: resize_def)

lemma move_ctor_eq:
  assumes "H other = Some src" "this \<noteq> other"
  shows "move_ctor H this other = Inr (H(this \<mapsto> moved_to this src, other \<mapsto> left_behind src))"
  using assms by (simp add: move_ctor_def moved_to_def left_behind_def push_hash_functions_eq)

lemma move_assign_eq:
  assumes "H this = Some t0" "H other = Some src" "this \<noteq> other"
  shows "move_assign H this other
         = Inr (H(this \<mapsto> moved_to this src, other \<mapsto> left_behind src))"
  using assms
  by (cases t0) (simp add: move_assign_def moved_to_def left_behind_def push_hash_functions_eq)

lemma move_assign_self:
  assumes "H this = Some t0"
  shows "move_assign H this this = Inr H"
  using assms by (simp add: move_assign_def)

lemma moved_from_left_behind: "moved_from (left_behind src)"
  by (simp add: moved_from_def left_behind_def)

lemma Insert_moved_from:
  assumes "H this = Some s" "moved_from s"
  shows "Insert E H this item = Inr H"
  using assms by (simp add: Insert_def moved_from_def for_loop.simps)

lemma Clear_moved_from:
  assumes "H this = Some s" "moved_from s"
  shows "Clear H this = Inr H"
  using assms by (simp add: Clear_def moved_from_def for_loop.simps)

lemma Merge_moved_from:
  assumes "H this = Some s" "moved_from s" "H other = Some b"
  shows "Merge H this other
         = (if width' b = 0 \<and> depth' b = 0 then Returned H
            else Thrown (invalid_argument ''Incompatible CountMinSketch dimensions for merge.'') H)"
  using assms by (auto simp: Merge_def moved_from_def for_loop.simps)

lemma Merge_into_moved_from:
  assumes "H other = Some s" "moved_from s" "H this = Some b"
  shows "Merge H this other
         = (if width' b = 0 \<and> depth' b = 0 then Returned H
            else Thrown (invalid_argument ''Incompatible CountMinSketch dimensions for merge.'') H)"
  using assms by (auto simp: Merge_def moved_from_def for_loop.simps)

text \<open>
  Claim C4, as amended. A move (construction, or assignment to another object) from a live
  sketch \<open>S\<close> to \<open>T\<close> gives \<open>T\<close> the width and depth of \<open>S\<close>, the rows of \<open>S\<close> each resized to
  that width (truncated or padded with zeros; unchanged when they had that length), and
  row hashers made anew for \<open>T\<close>: \<^verbatim>\<open>HashFunction(i)\<close> of \<open>T\<close> for each row \<open>i\<close>, capturing
  \<open>T\<close> itself. \<open>S\<close> is left with width 0, depth 0 and an empty matrix, and keeps the row
  hashers it had. On \<open>S\<close>, \<^verbatim>\<open>Insert\<close> then changes nothing, \<^verbatim>\<open>Count\<close> returns 0, and
  \<^verbatim>\<open>Merge\<close> with \<open>S\<close> on either side throws unless the other sketch has width 0 and depth
  0 too, in which case it changes nothing. None of them is undefined.
\<close>

theorem move_transfers:
  assumes Ho: "H other = Some src" and ne: "this \<noteq> other"
  shows "\<exists>t S H'. move_ctor H this other = Inr H'
           \<and> (H this \<noteq> None \<longrightarrow> move_assign H this other = Inr H')
           \<and> H' = H(this \<mapsto> t, other \<mapsto> S)
           \<and> width' t = width' src \<and> depth' t = depth' src
           \<and> count_matrix' t = map (\<lambda>row. resize row (unat (width' src)) 0) (count_matrix' src)
           \<and> (\<forall>row\<in>set (count_matrix' t). length row = unat (width' t))
           \<and> (matrix_ok src \<longrightarrow> count_matrix' t = count_matrix' src)
           \<and> hash_functions' t = map (\<lambda>i. HashFunction this (of_nat i)) [0..<unat (depth' t)]
           \<and> width' S = 0 \<and> depth' S = 0 \<and> count_matrix' S = []
           \<and> hash_functions' S = hash_functions' src
           \<and> (\<forall>item. Insert E H' other item = Inr H' \<and> Count E H' other item = Inr 0)
           \<and> (\<forall>b sb. H' b = Some sb \<longrightarrow>
                 Merge H' other b
                   = (if width' sb = 0 \<and> depth' sb = 0 then Returned H'
                      else Thrown (invalid_argument
                             ''Incompatible CountMinSketch dimensions for merge.'') H')
               \<and> Merge H' b other
                   = (if width' sb = 0 \<and> depth' sb = 0 then Returned H'
                      else Thrown (invalid_argument
                             ''Incompatible CountMinSketch dimensions for merge.'') H'))"
proof -
  let ?t = "moved_to this src" and ?S = "left_behind src"
  let ?H = "H(this \<mapsto> ?t, other \<mapsto> ?S)"
  have S: "?H other = Some ?S" by simp
  have mf: "moved_from ?S" by (rule moved_from_left_behind)
  have 1: "move_ctor H this other = Inr ?H" using Ho ne by (simp add: move_ctor_eq)
  have 2: "move_assign H this other = Inr ?H" if "H this \<noteq> None"
    using that move_assign_eq [of H this _ other src] Ho ne by auto
  have 3: "\<forall>row\<in>set (count_matrix' ?t). length row = unat (width' ?t)"
    by (simp add: moved_to_def length_resize)
  have 4: "count_matrix' ?t = count_matrix' src" if "matrix_ok src"
    using that by (simp add: moved_to_def matrix_ok_def resize_same map_idI)
  have 5: "Insert E ?H other item = Inr ?H" for item
    by (rule Insert_moved_from [of ?H other ?S, OF S mf])
  have 6: "Count E ?H other item = Inr 0" for item
    by (rule Count_moved_from [of ?H other ?S, OF S mf])
  have 7: "Merge ?H other b
             = (if width' sb = 0 \<and> depth' sb = 0 then Returned ?H
                else Thrown (invalid_argument
                       ''Incompatible CountMinSketch dimensions for merge.'') ?H)"
    if "?H b = Some sb" for b sb
    by (rule Merge_moved_from [of ?H other ?S b sb, OF S mf that])
  have 8: "Merge ?H b other
             = (if width' sb = 0 \<and> depth' sb = 0 then Returned ?H
                else Thrown (invalid_argument
                       ''Incompatible CountMinSketch dimensions for merge.'') ?H)"
    if "?H b = Some sb" for b sb
    by (rule Merge_into_moved_from [of ?H other ?S b sb, OF S mf that])
  have 9: "width' ?t = width' src" "depth' ?t = depth' src"
    "count_matrix' ?t = map (\<lambda>row. resize row (unat (width' src)) 0) (count_matrix' src)"
    "hash_functions' ?t = map (\<lambda>i. HashFunction this (of_nat i)) [0..<unat (depth' ?t)]"
    "width' ?S = 0" "depth' ?S = 0" "count_matrix' ?S = []"
    "hash_functions' ?S = hash_functions' src"
    by (simp_all add: moved_to_def left_behind_def)
  show ?thesis
    apply (rule exI [of _ ?t], rule exI [of _ ?S], rule exI [of _ ?H])
    apply (intro conjI allI impI)
    using 1 2 3 4 5 6 7 8 9 by blast+
qed

theorem move_transfers_witness:
  "\<exists>t S H'. move_ctor [0 \<mapsto> sketch_of 0 2 1 [[3, 4]]] 1 0 = Inr H'
      \<and> H' = [0 \<mapsto> sketch_of 0 2 1 [[3, 4]], 1 \<mapsto> t, 0 \<mapsto> S]
      \<and> width' t = 2 \<and> depth' t = 1 \<and> count_matrix' t = [[3, 4]]
      \<and> hash_functions' t = [HashFunction 1 0]
      \<and> width' S = 0 \<and> depth' S = 0 \<and> count_matrix' S = []
      \<and> hash_functions' S = [HashFunction 0 0]
      \<and> Insert sample_env H' 0 (9::nat) = Inr H'
      \<and> Count sample_env H' 0 (9::nat) = Inr 0
      \<and> Merge H' 0 1
          = Thrown (invalid_argument ''Incompatible CountMinSketch dimensions for merge.'') H'"
proof -
  have ok: "matrix_ok (sketch_of 0 2 1 [[3, 4]])"
    by (simp add: matrix_ok_def sketch_of_def)
  from move_transfers [of "[0 \<mapsto> sketch_of 0 2 1 [[3, 4]]]" 0 "sketch_of 0 2 1 [[3, 4]]" 1
      sample_env]
  obtain t S H' where *:
    "move_ctor [0 \<mapsto> sketch_of 0 2 1 [[3, 4]]] 1 0 = Inr H'"
    "H' = [0 \<mapsto> sketch_of 0 2 1 [[3, 4]], 1 \<mapsto> t, 0 \<mapsto> S]"
    "width' t = width' (sketch_of 0 2 1 [[3, 4]])" "depth' t = depth' (sketch_of 0 2 1 [[3, 4]])"
    "matrix_ok (sketch_of 0 2 1 [[3, 4]]) \<longrightarrow>
       count_matrix' t = count_matrix' (sketch_of 0 2 1 [[3, 4]])"
    "hash_functions' t = map (\<lambda>i. HashFunction 1 (of_nat i)) [0..<unat (depth' t)]"
    "width' S = 0" "depth' S = 0" "count_matrix' S = []"
    "hash_functions' S = hash_functions' (sketch_of 0 2 1 [[3, 4]])"
    "\<forall>item. Insert sample_env H' 0 item = Inr H' \<and> Count sample_env H' 0 item = Inr 0"
    "\<forall>b sb. H' b = Some sb \<longrightarrow>
                 Merge H' 0 b
                   = (if width' sb = 0 \<and> depth' sb = 0 then Returned H'
                      else Thrown (invalid_argument
                             ''Incompatible CountMinSketch dimensions for merge.'') H')
               \<and> Merge H' b 0
                   = (if width' sb = 0 \<and> depth' sb = 0 then Returned H'
                      else Thrown (invalid_argument
                             ''Incompatible CountMinSketch dimensions for merge.'') H')"
    by auto
  have t: "width' t = 2" "depth' t = 1" "count_matrix' t = [[3, 4]]"
    "hash_functions' t = [HashFunction 1 0]"
    using *(3-6) ok by (simp_all add: sketch_of_def)
  have S: "hash_functions' S = [HashFunction 0 0]"
    using *(10) by (simp add: sketch_of_def)
  have "H' 1 = Some t" using *(2) by simp
  with *(12) t have m: "Merge H' 0 1
     = Thrown (invalid_argument ''Incompatible CountMinSketch dimensions for merge.'') H'"
    by simp
  show ?thesis
    using *(1,2,7,8,9,11) t S m by blast
qed

text \<open>
  Claim C4 as first stated leaves the source without hashers. It keeps them: after a move from a sketch of depth 1 its
  \<^verbatim>\<open>hash_functions_\<close> still holds the one hasher.
\<close>

theorem move_source_counterexample:
  "move_ctor [0 \<mapsto> sketch_of 0 2 1 [[3, 4]]] 1 0
     = Inr [1 \<mapsto> sketch_of 1 2 1 [[3, 4]],
            0 \<mapsto> \<lparr>width' = 0, depth' = 0, hash_functions' = [HashFunction 0 0],
                    count_matrix' = []\<rparr>]
   \<and> \<not> empty_state \<lparr>width' = 0, depth' = 0, hash_functions' = [HashFunction 0 0],
                         count_matrix' = []\<rparr>"
  by (auto simp: move_ctor_def push_hash_functions_eq sketch_of_def resize_def empty_state_def)

section \<open>The structural invariant\<close>

lemma invariantD:
  assumes "invariant E H this"
  shows "\<exists>s. H this = Some s \<and> matrix_ok s \<and> length (hash_functions' s) = unat (depth' s)
    \<and> (\<forall>item. \<forall>k<unat (depth' s).
       \<exists>h. call E H (hash_functions' s ! k) item = Inr h
          \<and> unat h = hashed_column E H (hash_functions' s ! k) item
          \<and> hashed_column E H (hash_functions' s ! k) item < unat (width' s))"
proof -
  from assms obtain s where s: "H this = Some s" "matrix_ok s"
    "length (hash_functions' s) = unat (depth' s)"
    "\<forall>f\<in>set (hash_functions' s). \<forall>item.
                case call E H f item of Inl u \<Rightarrow> False | Inr h \<Rightarrow> unat h < unat (width' s)"
    by (auto simp: invariant_def split: option.splits)
  have "\<exists>h. call E H (hash_functions' s ! k) item = Inr h
          \<and> unat h = hashed_column E H (hash_functions' s ! k) item
          \<and> hashed_column E H (hash_functions' s ! k) item < unat (width' s)"
    if "k < unat (depth' s)" for k item
  proof -
    have "hash_functions' s ! k \<in> set (hash_functions' s)" using that s(3) by simp
    with s(4) show ?thesis
      by (auto simp: hashed_column_def split: sum.splits)
  qed
  with s(1-3) show ?thesis by blast
qed

lemma invariant_update:
  assumes H: "H this = Some s" and inv: "invariant E H a"
    and ok: "a = this \<Longrightarrow> matrix_ok (s\<lparr>count_matrix' := m\<rparr>)"
  shows "invariant E (H(this \<mapsto> s\<lparr>count_matrix' := m\<rparr>)) a"
proof (cases "a = this")
  case True
  then show ?thesis
    using inv H ok by (auto simp: invariant_def call_frame split: sum.splits)
next
  case False
  then show ?thesis
    using inv H by (simp add: invariant_def call_frame split: option.splits)
qed

lemma matrix_ok_map:
  "matrix_ok (s\<lparr>count_matrix' := map (\<lambda>r. map (g r) [0..<unat (width' s)]) [0..<unat (depth' s)]\<rparr>)"
  by (auto simp: matrix_ok_def)

lemma matrix_ok_zero:
  "matrix_ok (s\<lparr>count_matrix' := replicate (unat (depth' s)) (replicate (unat (width' s)) 0)\<rparr>)"
  by (simp add: matrix_ok_def)

lemma well_formed_invariant:
  assumes "H this = Some s" "well_formed this s"
  shows "invariant E H this"
proof -
  have "case call E H f item of Inl u \<Rightarrow> False | Inr h \<Rightarrow> unat h < unat (width' s)"
    if "f \<in> set (hash_functions' s)" for f item
  proof -
    from that assms(2) obtain k where "f = HashFunction this (of_nat k)"
      by (auto simp: well_formed_def)
    moreover have "width' s \<noteq> 0" using assms(2) by (simp add: well_formed_def)
    ultimately show ?thesis
      using assms(1) by (simp add: call_own unat_mod_ucast unat_gt_0)
  qed
  then show ?thesis
    using assms by (simp add: invariant_def well_formed_def)
qed

lemma Insert_invariant:
  assumes "invariant E H this"
  shows "\<exists>H'. Insert E H this item = Inr H' \<and> invariant E H' this"
proof -
  from assms obtain s where s: "H this = Some s" "matrix_ok s"
    "length (hash_functions' s) = unat (depth' s)"
    "\<forall>item. \<forall>k<unat (depth' s).
       \<exists>h. call E H (hash_functions' s ! k) item = Inr h
          \<and> unat h = hashed_column E H (hash_functions' s ! k) item
          \<and> hashed_column E H (hash_functions' s ! k) item < unat (width' s)"
    using invariantD by blast
  let ?hc = "\<lambda>k. hashed_column E H (hash_functions' s ! k) item"
  let ?m = "map (\<lambda>r. map (\<lambda>c. count_matrix' s ! r ! c + (if c = ?hc r then 1 else 0))
                  [0..<unat (width' s)]) [0..<unat (depth' s)]"
  have "Insert E H this item = Inr (H(this \<mapsto> s\<lparr>count_matrix' := ?m\<rparr>))"
    by (rule Insert_rows [of H this s E item ?hc, OF s(1-3)]) (use s(4) in simp)
  moreover have "invariant E (H(this \<mapsto> s\<lparr>count_matrix' := ?m\<rparr>)) this"
    by (rule invariant_update [OF s(1) assms]) (rule matrix_ok_map)
  ultimately show ?thesis by blast
qed

lemma Clear_invariant:
  assumes "invariant E H this"
  shows "\<exists>H'. Clear H this = Inr H' \<and> invariant E H' this"
proof -
  from assms obtain s where s: "H this = Some s" "matrix_ok s"
    using invariantD by blast
  let ?m = "replicate (unat (depth' s)) (replicate (unat (width' s)) (0::uint32_t))"
  have "Clear H this = Inr (H(this \<mapsto> s\<lparr>count_matrix' := ?m\<rparr>))"
    by (rule Clear_matrix_ok [of H this s, OF s])
  moreover have "invariant E (H(this \<mapsto> s\<lparr>count_matrix' := ?m\<rparr>)) this"
    by (rule invariant_update [OF s(1) assms]) (rule matrix_ok_zero)
  ultimately show ?thesis by blast
qed

lemma Merge_invariant:
  assumes "invariant E H this" "invariant E H other"
  shows "\<exists>H'. (Merge H this other = Returned H'
               \<or> Merge H this other
                  = Thrown (invalid_argument
                      ''Incompatible CountMinSketch dimensions for merge.'') H')
            \<and> invariant E H' this \<and> invariant E H' other"
proof -
  from assms(1) obtain s where s: "H this = Some s" "matrix_ok s"
    using invariantD by blast
  from assms(2) obtain src where o: "H other = Some src" "matrix_ok src"
    using invariantD by blast
  show ?thesis
  proof (cases "width' s \<noteq> width' src \<or> depth' s \<noteq> depth' src")
    case True
    then have "Merge H this other
       = Thrown (invalid_argument ''Incompatible CountMinSketch dimensions for merge.'') H"
      using s o by (auto simp: Merge_def)
    then show ?thesis using assms by blast
  next
    case False
    then have dims: "width' s = width' src" "depth' s = depth' src" by auto
    let ?m = "map (\<lambda>r. map (\<lambda>c. count_matrix' s ! r ! c + count_matrix' src ! r ! c)
                  [0..<unat (width' s)]) [0..<unat (depth' s)]"
    have "Merge H this other = Returned (H(this \<mapsto> s\<lparr>count_matrix' := ?m\<rparr>))"
      by (rule Merge_matrix_ok [of H this s other src, OF s(1) o(1) s(2) o(2) dims])
    moreover have "invariant E (H(this \<mapsto> s\<lparr>count_matrix' := ?m\<rparr>)) a"
      if "invariant E H a" for a
      by (rule invariant_update [OF s(1) that]) (rule matrix_ok_map)
    ultimately show ?thesis using assms by blast
  qed
qed

lemma Count_invariant:
  assumes "invariant E H this"
  shows "\<exists>c. Count E H this item = Inr c"
proof -
  from assms obtain s where s: "H this = Some s" "matrix_ok s"
    "length (hash_functions' s) = unat (depth' s)"
    "\<forall>item. \<forall>k<unat (depth' s).
       \<exists>h. call E H (hash_functions' s ! k) item = Inr h
          \<and> unat h = hashed_column E H (hash_functions' s ! k) item
          \<and> hashed_column E H (hash_functions' s ! k) item < unat (width' s)"
    using invariantD by blast
  let ?hc = "\<lambda>k. hashed_column E H (hash_functions' s ! k) item"
  have "Count E H this item
         = Inr (final_count (foldl (\<lambda>a k. min a (count_matrix' s ! k ! ?hc k)) UINT32_MAX
                  [0..<unat (depth' s)]))"
    by (rule Count_rows [of H this s E item ?hc, OF s(1-3)]) (use s(4) in simp)
  then show ?thesis by blast
qed

lemma TopK_invariant:
  assumes "invariant E H this"
  shows "\<exists>r. TopK E H this k candidates = Inr r"
proof -
  have "\<forall>c. \<exists>v. Count E H this c = Inr v"
    using Count_invariant [OF assms] by blast
  then obtain f where f: "\<And>c. Count E H this c = Inr (f c)" by metis
  then have "TopK_collect E H this candidates [] = Inr (map (\<lambda>c. (c, f c)) candidates)"
    using TopK_collect_eq [of candidates E H this f "[]"] by simp
  then show ?thesis by (simp add: TopK_def Let_def)
qed

lemma move_invariant:
  assumes inv: "invariant E H other" and ne: "this \<noteq> other" and Ho: "H other = Some src"
  shows "invariant E (H(this \<mapsto> moved_to this src, other \<mapsto> left_behind src)) this"
proof -
  let ?t = "moved_to this src"
  let ?H = "H(this \<mapsto> ?t, other \<mapsto> left_behind src)"
  from inv Ho have src: "matrix_ok src" "length (hash_functions' src) = unat (depth' src)"
    "\<forall>f\<in>set (hash_functions' src). \<forall>item.
        case call E H f item of Inl u \<Rightarrow> False | Inr h \<Rightarrow> unat h < unat (width' src)"
    by (simp_all add: invariant_def)
  have Ht: "?H this = Some ?t" using ne by simp
  have ok: "matrix_ok ?t"
    using src(1) by (simp add: matrix_ok_def moved_to_def length_resize)
  have w: "width' src \<noteq> 0" if "unat (depth' src) \<noteq> 0"
  proof -
    from that src(2) obtain f where "f \<in> set (hash_functions' src)"
      by (cases "hash_functions' src") auto
    with src(3) have "case call E H f undefined of Inl u \<Rightarrow> False
                      | Inr h \<Rightarrow> unat h < unat (width' src)" by blast
    then have "0 < unat (width' src)" by (auto split: sum.splits)
    then show ?thesis by (simp add: unat_gt_0)
  qed
  have "case call E ?H f item of Inl u \<Rightarrow> False | Inr h \<Rightarrow> unat h < unat (width' ?t)"
    if "f \<in> set (hash_functions' ?t)" for f item
  proof -
    from that obtain k where k: "f = HashFunction this (of_nat k)" "k < unat (depth' src)"
      by (auto simp: moved_to_def)
    then have "width' ?t \<noteq> 0" using w by (simp add: moved_to_def)
    then show ?thesis
      unfolding k(1) using Ht by (simp add: call_own unat_mod_ucast unat_gt_0)
  qed
  then show ?thesis
    using Ht ok by (simp add: invariant_def) (simp add: moved_to_def)
qed

lemma left_behind_invariant:
  assumes "this \<noteq> other"
  shows "invariant E (H(this \<mapsto> t, other \<mapsto> left_behind src)) other
         \<longleftrightarrow> hash_functions' src = []"
  by (auto simp: invariant_def left_behind_def matrix_ok_def)

text \<open>
  Claim C8, as amended. The constructor establishes the invariant. On a sketch that
  satisfies it, \<^verbatim>\<open>Insert\<close> and \<^verbatim>\<open>Clear\<close> return and preserve it, \<^verbatim>\<open>Count\<close> and
  \<^verbatim>\<open>TopK\<close> return (they write nothing), and \<^verbatim>\<open>Merge\<close> with another sketch that
  satisfies it returns or throws and preserves it for both. A move from a sketch that
  satisfies it establishes it for the destination; the source is left with width 0, depth
  0, an empty matrix and the hashers it had, so the source satisfies the invariant
  afterwards only when it had no hashers.
\<close>

theorem invariant_preserved:
  "(width \<noteq> 0 \<and> depth \<noteq> 0 \<longrightarrow>
      (\<exists>H'. CountMinSketch H this width depth = Returned H' \<and> invariant E H' this))
   \<and> (invariant E H this \<longrightarrow>
        (\<exists>H'. Insert E H this item = Inr H' \<and> invariant E H' this)
      \<and> (\<exists>H'. Clear H this = Inr H' \<and> invariant E H' this)
      \<and> (\<exists>c. Count E H this item = Inr c)
      \<and> (\<exists>r. TopK E H this k candidates = Inr r)
      \<and> (invariant E H other \<longrightarrow>
           (\<exists>H'. (Merge H this other = Returned H'
                   \<or> Merge H this other
                      = Thrown (invalid_argument
                          ''Incompatible CountMinSketch dimensions for merge.'') H')
                 \<and> invariant E H' this \<and> invariant E H' other)))
   \<and> (invariant E H other \<and> this \<noteq> other \<longrightarrow>
        (\<exists>H' src S. H other = Some src
           \<and> move_ctor H this other = Inr H'
           \<and> (H this \<noteq> None \<longrightarrow> move_assign H this other = Inr H')
           \<and> invariant E H' this
           \<and> H' other = Some S
           \<and> width' S = 0 \<and> depth' S = 0 \<and> count_matrix' S = []
           \<and> hash_functions' S = hash_functions' src
           \<and> (invariant E H' other \<longleftrightarrow> hash_functions' src = [])))"
proof -
  have 1: "\<exists>H'. CountMinSketch H this width depth = Returned H' \<and> invariant E H' this"
    if nz: "width \<noteq> 0" "depth \<noteq> 0"
  proof -
    let ?n = "\<lparr>width' = width, depth' = depth,
            hash_functions' = map (\<lambda>i. HashFunction this (of_nat i)) [0..<unat depth],
            count_matrix' = replicate (unat depth) (replicate (unat width) 0)\<rparr>"
    have "invariant E (H(this \<mapsto> ?n)) this"
      by (rule well_formed_invariant [of _ _ ?n]) (simp_all add: well_formed_fresh [OF nz])
    then show ?thesis using CountMinSketch_Returned [OF nz, of H this] by simp
  qed
  have 3: "\<exists>H' src S. H other = Some src
           \<and> move_ctor H this other = Inr H'
           \<and> (H this \<noteq> None \<longrightarrow> move_assign H this other = Inr H')
           \<and> invariant E H' this
           \<and> H' other = Some S
           \<and> width' S = 0 \<and> depth' S = 0 \<and> count_matrix' S = []
           \<and> hash_functions' S = hash_functions' src
           \<and> (invariant E H' other \<longleftrightarrow> hash_functions' src = [])"
    if inv: "invariant E H other" and ne: "this \<noteq> other"
  proof -
    from inv obtain src where src: "H other = Some src"
      using invariantD by blast
    let ?H = "H(this \<mapsto> moved_to this src, other \<mapsto> left_behind src)"
    have a: "move_ctor H this other = Inr ?H"
      using src ne by (simp add: move_ctor_eq)
    have b: "move_assign H this other = Inr ?H" if "H this \<noteq> None"
      using that move_assign_eq [of H this _ other src] src ne by auto
    have c: "invariant E ?H this"
      by (rule move_invariant [OF inv ne src])
    have d: "invariant E ?H other \<longleftrightarrow> hash_functions' src = []"
      by (rule left_behind_invariant [OF ne])
    have e: "?H other = Some (left_behind src)" "width' (left_behind src) = 0"
      "depth' (left_behind src) = 0" "count_matrix' (left_behind src) = []"
      "hash_functions' (left_behind src) = hash_functions' src"
      by (simp_all add: left_behind_def)
    show ?thesis
      apply (rule exI [of _ ?H], rule exI [of _ src], rule exI [of _ "left_behind src"])
      using src a b c d e by blast
  qed
  show ?thesis
    using 1 3 Insert_invariant [of E H this item] Clear_invariant [of E H this]
      Count_invariant [of E H this item] TopK_invariant [of E H this k candidates]
      Merge_invariant [of E H this other]
    by blast
qed

theorem invariant_preserved_witness:
  "(\<exists>H'. CountMinSketch [4 \<mapsto> sketch_of 4 2 1 [[3, 4]], 5 \<mapsto> sketch_of 5 2 1 [[1, 1]]] 4 2 3
           = Returned H' \<and> invariant sample_env H' 4)
   \<and> (\<exists>H'. Insert sample_env [4 \<mapsto> sketch_of 4 2 1 [[3, 4]], 5 \<mapsto> sketch_of 5 2 1 [[1, 1]]] 4 (7::nat)
           = Inr H' \<and> invariant sample_env H' 4)
   \<and> (\<exists>H'. Clear [4 \<mapsto> sketch_of 4 2 1 [[3, 4]], 5 \<mapsto> sketch_of 5 2 1 [[1, 1]]] 4
           = Inr H' \<and> invariant sample_env H' 4)
   \<and> (\<exists>H'. (Merge [4 \<mapsto> sketch_of 4 2 1 [[3, 4]], 5 \<mapsto> sketch_of 5 2 1 [[1, 1]]] 4 5 = Returned H'
            \<or> Merge [4 \<mapsto> sketch_of 4 2 1 [[3, 4]], 5 \<mapsto> sketch_of 5 2 1 [[1, 1]]] 4 5
                = Thrown (invalid_argument
                    ''Incompatible CountMinSketch dimensions for merge.'') H')
          \<and> invariant sample_env H' 4 \<and> invariant sample_env H' 5)
   \<and> (\<exists>H' S. move_ctor [4 \<mapsto> sketch_of 4 2 1 [[3, 4]], 5 \<mapsto> sketch_of 5 2 1 [[1, 1]]] 4 5 = Inr H'
          \<and> move_assign [4 \<mapsto> sketch_of 4 2 1 [[3, 4]], 5 \<mapsto> sketch_of 5 2 1 [[1, 1]]] 4 5 = Inr H'
          \<and> invariant sample_env H' 4 \<and> H' 5 = Some S \<and> depth' S = 0
          \<and> hash_functions' S = [HashFunction 5 0] \<and> \<not> invariant sample_env H' 5)"
proof -
  let ?H = "[4 \<mapsto> sketch_of 4 2 1 [[3, 4]], 5 \<mapsto> sketch_of 5 2 1 [[1, 1]]] :: heap"
  have wf: "well_formed 4 (sketch_of 4 2 1 [[3, 4]])" "well_formed 5 (sketch_of 5 2 1 [[1, 1]])"
    by (simp_all add: well_formed_def sketch_of_def matrix_ok_def)
  have i0: "invariant sample_env ?H 4"
    by (rule well_formed_invariant [of ?H 4 "sketch_of 4 2 1 [[3, 4]]", OF _ wf(1)]) simp
  have i1: "invariant sample_env ?H 5"
    by (rule well_formed_invariant [of ?H 5 "sketch_of 5 2 1 [[1, 1]]", OF _ wf(2)]) simp
  have h: "hash_functions' (sketch_of 5 2 1 [[1, 1]]) = [HashFunction 5 0]"
    by (simp add: sketch_of_def)
  note t = invariant_preserved [of 2 3 ?H 4 sample_env 7 1 "[7]" 5]
  have a: "\<exists>H'. CountMinSketch ?H 4 2 3 = Returned H' \<and> invariant sample_env H' 4"
    using t by simp
  have b: "(\<exists>H'. Insert sample_env ?H 4 (7::nat) = Inr H' \<and> invariant sample_env H' 4)
      \<and> (\<exists>H'. Clear ?H 4 = Inr H' \<and> invariant sample_env H' 4)
      \<and> (\<exists>H'. (Merge ?H 4 5 = Returned H'
            \<or> Merge ?H 4 5
                = Thrown (invalid_argument
                    ''Incompatible CountMinSketch dimensions for merge.'') H')
          \<and> invariant sample_env H' 4 \<and> invariant sample_env H' 5)"
    using t i0 i1 by blast
  have "\<exists>H' src S. ?H 5 = Some src
           \<and> move_ctor ?H 4 5 = Inr H'
           \<and> (?H 4 \<noteq> None \<longrightarrow> move_assign ?H 4 5 = Inr H')
           \<and> invariant sample_env H' 4
           \<and> H' 5 = Some S
           \<and> width' S = 0 \<and> depth' S = 0 \<and> count_matrix' S = []
           \<and> hash_functions' S = hash_functions' src
           \<and> (invariant sample_env H' 5 \<longleftrightarrow> hash_functions' src = [])"
    using t i1 by simp
  then have c: "\<exists>H' S. move_ctor ?H 4 5 = Inr H' \<and> move_assign ?H 4 5 = Inr H'
          \<and> invariant sample_env H' 4 \<and> H' 5 = Some S \<and> depth' S = 0
          \<and> hash_functions' S = [HashFunction 5 0] \<and> \<not> invariant sample_env H' 5"
    using h by auto
  show ?thesis using a b c by blast
qed

text \<open>
  Claim C8 as first stated has the move preserve the invariant. After a move out of a
  sketch of depth 1 the source has depth 0 and one row hasher.
\<close>

theorem invariant_move_counterexample:
  "invariant sample_env [0 \<mapsto> sketch_of 0 2 1 [[3, 4]]] 0
   \<and> move_ctor [0 \<mapsto> sketch_of 0 2 1 [[3, 4]]] 1 0
       = Inr [1 \<mapsto> sketch_of 1 2 1 [[3, 4]],
              0 \<mapsto> \<lparr>width' = 0, depth' = 0, hash_functions' = [HashFunction 0 0],
                      count_matrix' = []\<rparr>]
   \<and> \<not> invariant sample_env
         [1 \<mapsto> sketch_of 1 2 1 [[3, 4]],
          0 \<mapsto> \<lparr>width' = 0, depth' = 0, hash_functions' = [HashFunction 0 0],
                  count_matrix' = []\<rparr>] 0"
proof -
  have wf: "well_formed 0 (sketch_of 0 2 1 [[3, 4]])"
    by (simp add: well_formed_def sketch_of_def matrix_ok_def)
  have 1: "invariant sample_env [0 \<mapsto> sketch_of 0 2 1 [[3, 4]]] 0"
    by (rule well_formed_invariant [of _ _ "sketch_of 0 2 1 [[3, 4]]"]) (simp_all add: wf)
  have 2: "move_ctor [0 \<mapsto> sketch_of 0 2 1 [[3, 4]]] 1 0
       = Inr [1 \<mapsto> sketch_of 1 2 1 [[3, 4]],
              0 \<mapsto> \<lparr>width' = 0, depth' = 0, hash_functions' = [HashFunction 0 0],
                      count_matrix' = []\<rparr>]"
    by (auto simp: move_ctor_def push_hash_functions_eq sketch_of_def resize_def)
  have 3: "\<not> invariant sample_env
         [1 \<mapsto> sketch_of 1 2 1 [[3, 4]],
          0 \<mapsto> \<lparr>width' = 0, depth' = 0, hash_functions' = [HashFunction 0 0],
                  count_matrix' = []\<rparr>] 0"
    by (simp add: invariant_def)
  show ?thesis using 1 2 3 by blast
qed

section \<open>The states that the member functions produce\<close>

text \<open>
  The theorems on \<^verbatim>\<open>Clear\<close> and \<^verbatim>\<open>TopK\<close> assume a sketch that is well formed or
  moved from. The constructor makes a well formed sketch (\<open>well_formed_fresh\<close>); the
  member functions keep a sketch well formed, and leave a moved-from sketch as it is
  (\<open>Insert_moved_from\<close>, \<open>Clear_moved_from\<close>, \<open>Merge_moved_from\<close>); a move makes its
  destination what the source was, and its source moved from.
\<close>

lemma well_formed_moved_to:
  assumes "well_formed other src"
  shows "well_formed this (moved_to this src)"
  using assms by (simp add: well_formed_def matrix_ok_def moved_to_def length_resize)

lemma moved_from_moved_to:
  assumes "moved_from src"
  shows "moved_from (moved_to this src)"
  using assms by (simp add: moved_from_def moved_to_def)

lemma Insert_keeps_well_formed:
  assumes "H this = Some s" "well_formed this s"
  shows "\<exists>s'. Insert E H this item = Inr (H(this \<mapsto> s')) \<and> well_formed this s'"
  using assms Insert_well_formed [of H this s E item]
    well_formed_matrix [of this s "map (\<lambda>r. map (\<lambda>c. count_matrix' s ! r ! c
                               + (if c = column E (width' s) r item then 1 else 0))
                  [0..<unat (width' s)]) [0..<unat (depth' s)]"]
  by auto

lemma Merge_keeps_well_formed:
  assumes "H this = Some s" "well_formed this s" "H other = Some src" "matrix_ok src"
    "width' s = width' src" "depth' s = depth' src"
  shows "\<exists>s'. Merge H this other = Returned (H(this \<mapsto> s')) \<and> well_formed this s'"
proof -
  have ok: "matrix_ok s" using assms(2) by (simp add: well_formed_def)
  show ?thesis
    using Merge_matrix_ok [of H this s other src, OF assms(1,3) ok assms(4-6)]
      well_formed_matrix [of this s "map (\<lambda>r. map (\<lambda>c. count_matrix' s ! r ! c
                               + count_matrix' src ! r ! c)
                  [0..<unat (width' s)]) [0..<unat (depth' s)]"] assms(2)
    by auto
qed

end
